theory Spec2Isabelle
  imports Main "HOL-Library.Product_Lexorder" "HOL-Library.Sublist"
begin

section \<open>Data model\<close>

text \<open>
  The search strategies of \<^verbatim>\<open>core/agents.py\<close>.  A coordinate is a pair
  \<open>(row, column)\<close> of Python integers.  A tile exposes its coordinate \<open>pos\<close> and its
  entry cost \<open>cost\<close>; these are the only two attributes the strategies read.
\<close>

type_synonym coord = "int \<times> int"

record Tile =
  pos :: coord
  cost :: int

text \<open>
  Modelled from the spec: the class \<^verbatim>\<open>Grid\<close> of \<^verbatim>\<open>core/grid.py\<close> is not among
  the sources.  The strategies use three of its methods.  \<open>neighbors4\<close> and \<open>get\<close> are
  taken as parameters (the two fields of the record), so every theorem below holds for
  whatever enumeration order and whatever passable cells a grid has; what the spec
  promises about them is the predicate \<open>grid_contract\<close> further down.
\<close>

record Grid =
  neighbors4 :: "int \<Rightarrow> int \<Rightarrow> Tile list"
  get :: "int \<Rightarrow> int \<Rightarrow> Tile"

text \<open>
  Modelled from the spec: \<^verbatim>\<open>Grid.manhattan(a, b)\<close> is \<open>|r1 - r2| + |c1 - c2|\<close>.
\<close>

definition manhattan :: "coord \<Rightarrow> coord \<Rightarrow> int" where
  "manhattan a b = \<bar>fst a - fst b\<bar> + \<bar>snd a - snd b\<bar>"

text \<open>
  Modelled from the spec: the class \<^verbatim>\<open>Path\<close> of \<^verbatim>\<open>core/path.py\<close> is not among
  the sources; a \<open>Path\<close> is the ordered sequence of coordinates it is built from, and
  the empty sequence is the "not found" value.
\<close>

type_synonym Path = "coord list"

text \<open>The Python exceptions a strategy can raise by itself.\<close>

datatype error = IndexError | KeyError | ValueError

section \<open>The greedy strategy (ExampleAgent)\<close>

text \<open>
  One execution of the loop body of \<^verbatim>\<open>ExampleAgent.find_path\<close>.  \<open>k\<close> is the raw
  random draw of this iteration: \<^verbatim>\<open>random.randint(0, len(best_tiles) - 1)\<close> returns
  some index below \<open>len(best_tiles)\<close>, which is \<open>k mod len(best_tiles)\<close> for a suitable
  \<open>k\<close>, and every \<open>k\<close> gives such an index.  \<^verbatim>\<open>min\<close> of an empty sequence raises
  \<^verbatim>\<open>ValueError\<close>; \<^verbatim>\<open>nodes[-1]\<close> of an empty list raises \<^verbatim>\<open>IndexError\<close>.
\<close>

definition ExampleAgent_step :: "Grid \<Rightarrow> coord \<Rightarrow> nat \<Rightarrow> coord list \<Rightarrow> error + coord list" where
  "ExampleAgent_step grid goal k nodes =
     (if nodes = [] then Inl IndexError
      else
        let (r, c) = last nodes;
            neighbors = neighbors4 grid r c
        in if neighbors = [] then Inl ValueError
           else
             let min_dist = min_list (map (\<lambda>t. manhattan (pos t) goal) neighbors);
                 best_tiles = filter (\<lambda>tile. manhattan (pos tile) goal = min_dist) neighbors;
                 best_tile = best_tiles ! (k mod length best_tiles)
             in Inr (nodes @ [pos best_tile]))"

text \<open>
  The \<^verbatim>\<open>while nodes[-1] != goal\<close> loop.  \<open>rnd\<close> is the sequence of random draws and
  \<open>i\<close> the number of the iteration.  A run that never leaves the loop is \<open>None\<close>.
\<close>

partial_function (option) ExampleAgent_loop ::
  "Grid \<Rightarrow> coord \<Rightarrow> (nat \<Rightarrow> nat) \<Rightarrow> nat \<Rightarrow> coord list \<Rightarrow> (error + Path) option" where
  "ExampleAgent_loop grid goal rnd i nodes =
     (if nodes = [] then Some (Inl IndexError)
      else if last nodes \<noteq> goal then
        (case ExampleAgent_step grid goal (rnd i) nodes of
           Inl e \<Rightarrow> Some (Inl e)
         | Inr nodes' \<Rightarrow> ExampleAgent_loop grid goal rnd (Suc i) nodes')
      else Some (Inr nodes))"

declare ExampleAgent_loop.simps [code]

definition ExampleAgent_find_path :: "Grid \<Rightarrow> coord \<Rightarrow> coord \<Rightarrow> (nat \<Rightarrow> nat) \<Rightarrow> (error + Path) option" where
  "ExampleAgent_find_path grid start goal rnd = ExampleAgent_loop grid goal rnd 0 [start]"

text \<open>
  The list \<open>nodes\<close> after \<open>n\<close> passes through the loop condition and body (a pass that
  finds the condition false leaves the list as it is).
\<close>

fun ExampleAgent_iter :: "Grid \<Rightarrow> coord \<Rightarrow> (nat \<Rightarrow> nat) \<Rightarrow> nat \<Rightarrow> nat \<Rightarrow> coord list \<Rightarrow> error + coord list" where
  "ExampleAgent_iter grid goal rnd i 0 nodes = Inr nodes"
| "ExampleAgent_iter grid goal rnd i (Suc n) nodes =
     (if nodes = [] then Inl IndexError
      else if last nodes \<noteq> goal then
        (case ExampleAgent_step grid goal (rnd i) nodes of
           Inl e \<Rightarrow> Inl e
         | Inr nodes' \<Rightarrow> ExampleAgent_iter grid goal rnd (Suc i) n nodes')
      else Inr nodes)"

section \<open>The depth-first strategy (DFSAgent)\<close>

text \<open>The dictionary \<^verbatim>\<open>directions\<close>; a missing key raises \<^verbatim>\<open>KeyError\<close>.\<close>

definition directions :: "int \<times> int \<Rightarrow> nat option" where
  "directions d =
     (if d = (0, 1) then Some 0
      else if d = (1, 0) then Some 1
      else if d = (0, -1) then Some 2
      else if d = (-1, 0) then Some 3
      else None)"

text \<open>
  One execution of the loop body of \<^verbatim>\<open>DFSAgent.find_path\<close> on the state
  \<open>(nodes, visited)\<close>.  \<^verbatim>\<open>sorted\<close> evaluates its key on every candidate, so a
  candidate whose offset is not a key of \<open>directions\<close> raises \<^verbatim>\<open>KeyError\<close>.
  The loop never runs the body on an empty stack; \<^verbatim>\<open>nodes[-1]\<close> would raise there.
  \<^verbatim>\<open>sorted\<close> is stable, as \<open>sort_key\<close> is, and Python compares the key tuples
  lexicographically.
\<close>

definition DFS_step :: "Grid \<Rightarrow> coord list \<times> coord set \<Rightarrow> error + coord list \<times> coord set" where
  "DFS_step grid s =
     (let (nodes, visited) = s;
          (r, c) = last nodes;
          neighbors = neighbors4 grid r c;
          unvisited = filter (\<lambda>tile. pos tile \<notin> visited) neighbors
      in if nodes = [] then Inl IndexError
         else if list_ex (\<lambda>t. directions (fst (pos t) - r, snd (pos t) - c) = None) unvisited
         then Inl KeyError
         else
           let neighbors_sorted =
                 sort_key (\<lambda>t. (cost t, the (directions (fst (pos t) - r, snd (pos t) - c)))) unvisited
           in if neighbors_sorted = [] then Inr (butlast nodes, visited)
              else
                let best_tile = hd neighbors_sorted
                in Inr (nodes @ [pos best_tile], insert (pos best_tile) visited))"

text \<open>The \<^verbatim>\<open>while nodes and nodes[-1] != goal\<close> loop.\<close>

partial_function (option) DFS_loop ::
  "Grid \<Rightarrow> coord \<Rightarrow> coord list \<times> coord set \<Rightarrow> (error + Path) option" where
  "DFS_loop grid goal s =
     (if fst s \<noteq> [] \<and> last (fst s) \<noteq> goal then
        (case DFS_step grid s of
           Inl e \<Rightarrow> Some (Inl e)
         | Inr s' \<Rightarrow> DFS_loop grid goal s')
      else Some (Inr (fst s)))"

declare DFS_loop.simps [code]

definition DFS_find_path :: "Grid \<Rightarrow> coord \<Rightarrow> coord \<Rightarrow> (error + Path) option" where
  "DFS_find_path grid start goal = DFS_loop grid goal ([start], {start})"

text \<open>
  The same loop with a budget of \<open>n\<close> executions of the body: \<open>None\<close> when the budget
  is used up before the loop condition fails.
\<close>

fun DFS_fuel :: "nat \<Rightarrow> Grid \<Rightarrow> coord \<Rightarrow> coord list \<times> coord set \<Rightarrow> (error + Path) option" where
  "DFS_fuel 0 grid goal s =
     (if fst s \<noteq> [] \<and> last (fst s) \<noteq> goal then None else Some (Inr (fst s)))"
| "DFS_fuel (Suc n) grid goal s =
     (if fst s \<noteq> [] \<and> last (fst s) \<noteq> goal then
        (case DFS_step grid s of
           Inl e \<Rightarrow> Some (Inl e)
         | Inr s' \<Rightarrow> DFS_fuel n grid goal s')
      else Some (Inr (fst s)))"

section \<open>Branch and bound, and A*\<close>

text \<open>
  Python's \<^verbatim>\<open>min(xs, key=f)\<close> on the non-empty list \<open>b # xs\<close>: the first element
  whose key is least (a later element replaces the current one only when its key is
  strictly smaller).
\<close>

fun py_min :: "('a \<Rightarrow> 'k::linorder) \<Rightarrow> 'a \<Rightarrow> 'a list \<Rightarrow> 'a" where
  "py_min key b [] = b"
| "py_min key b (x # xs) = py_min key (if key x < key b then x else b) xs"

text \<open>A frontier entry \<^verbatim>\<open>{"path": p, "cost": c}\<close> of branch and bound.\<close>

type_synonym bb_node = "coord list \<times> int"

definition bb_key :: "bb_node \<Rightarrow> int \<times> nat" where
  "bb_key p = (snd p, length (fst p))"

definition bb_expand :: "Grid \<Rightarrow> bb_node \<Rightarrow> bb_node list" where
  "bb_expand grid best =
     (let (r, c) = last (fst best)
      in map (\<lambda>neighbor. (fst best @ [pos neighbor], snd best + cost neighbor))
           (filter (\<lambda>neighbor. pos neighbor \<notin> set (fst best)) (neighbors4 grid r c)))"

partial_function (option) BranchAndBound_loop ::
  "Grid \<Rightarrow> coord \<Rightarrow> bb_node list \<Rightarrow> (error + Path) option" where
  "BranchAndBound_loop grid goal nodes =
     (case nodes of
        [] \<Rightarrow> Some (Inr [])
      | n # ns \<Rightarrow>
          let best = py_min bb_key n ns;
              nodes1 = remove1 best nodes
          in if fst best = [] then Some (Inl IndexError)
             else if last (fst best) = goal then Some (Inr (fst best))
             else BranchAndBound_loop grid goal (nodes1 @ bb_expand grid best))"

declare BranchAndBound_loop.simps [code]

definition BranchAndBound_find_path :: "Grid \<Rightarrow> coord \<Rightarrow> coord \<Rightarrow> (error + Path) option" where
  "BranchAndBound_find_path grid start goal =
     (let (r, c) = start
      in BranchAndBound_loop grid goal [([start], cost (get grid r c))])"

text \<open>A frontier entry \<^verbatim>\<open>{"path": p, "gcost": g, "hcost": h}\<close> of A*.\<close>

type_synonym as_node = "coord list \<times> int \<times> int"

definition as_key :: "as_node \<Rightarrow> int \<times> nat" where
  "as_key p = (fst (snd p) + snd (snd p), length (fst p))"

definition as_expand :: "Grid \<Rightarrow> coord \<Rightarrow> as_node \<Rightarrow> as_node list" where
  "as_expand grid goal best =
     (let (r, c) = last (fst best)
      in map (\<lambda>neighbor. (fst best @ [pos neighbor], fst (snd best) + cost neighbor,
                           manhattan (pos neighbor) goal))
           (filter (\<lambda>neighbor. pos neighbor \<notin> set (fst best)) (neighbors4 grid r c)))"

partial_function (option) AStar_loop ::
  "Grid \<Rightarrow> coord \<Rightarrow> as_node list \<Rightarrow> (error + Path) option" where
  "AStar_loop grid goal nodes =
     (case nodes of
        [] \<Rightarrow> Some (Inr [])
      | n # ns \<Rightarrow>
          let best = py_min as_key n ns;
              nodes1 = remove1 best nodes
          in if fst best = [] then Some (Inl IndexError)
             else if last (fst best) = goal then Some (Inr (fst best))
             else AStar_loop grid goal (nodes1 @ as_expand grid goal best))"

declare AStar_loop.simps [code]

definition AStar_find_path :: "Grid \<Rightarrow> coord \<Rightarrow> coord \<Rightarrow> (error + Path) option" where
  "AStar_find_path grid start goal =
     (let (r, c) = start
      in AStar_loop grid goal [([start], cost (get grid r c), manhattan start goal)])"

section \<open>The registry\<close>

text \<open>
  The four subclasses of \<^verbatim>\<open>Agent\<close>.  An instance has no state but the field
  \<open>name\<close> its constructor sets, so the variant is the instance.
\<close>

datatype Agent = ExampleAgent | DFSAgent | BranchAndBoundAgent | AStar

fun name :: "Agent \<Rightarrow> string" where
  "name ExampleAgent = ''Example''"
| "name DFSAgent = ''DFS''"
| "name BranchAndBoundAgent = ''BranchAndBound''"
| "name AStar = ''AStar''"

text \<open>The dictionary \<^verbatim>\<open>AGENTS\<close>, in insertion order.\<close>

definition AGENTS :: "(string \<times> Agent) list" where
  "AGENTS =
     [(''Example'', ExampleAgent), (''DFS'', DFSAgent),
      (''BranchAndBound'', BranchAndBoundAgent), (''AStar'', AStar)]"

text \<open>\<^verbatim>\<open>sep.join(xs)\<close>.\<close>

fun join :: "string \<Rightarrow> string list \<Rightarrow> string" where
  "join sep [] = []"
| "join sep [x] = x"
| "join sep (x # y # xs) = x @ sep @ join sep (y # xs)"

text \<open>
  \<^verbatim>\<open>create_agent\<close>: the \<^verbatim>\<open>ValueError\<close> carries the formatted message
  \<^verbatim>\<open>Unknown agent '<name>'. Available: <keys joined by ", ">\<close>.
\<close>

definition create_agent :: "string \<Rightarrow> error \<times> string + Agent" where
  "create_agent nm =
     (case map_of AGENTS nm of
        None \<Rightarrow>
          Inl (ValueError,
               ''Unknown agent '' @ [CHR 0x27] @ nm @ [CHR 0x27] @ ''. Available: ''
                 @ join '', '' (map fst AGENTS))
      | Some mk \<Rightarrow> Inr mk)"

text \<open>
  Dynamic dispatch of \<^verbatim>\<open>find_path\<close>.  Only the greedy strategy reads the random
  draws \<open>rnd\<close>.
\<close>

fun find_path :: "Agent \<Rightarrow> Grid \<Rightarrow> coord \<Rightarrow> coord \<Rightarrow> (nat \<Rightarrow> nat) \<Rightarrow> (error + Path) option" where
  "find_path ExampleAgent grid start goal rnd = ExampleAgent_find_path grid start goal rnd"
| "find_path DFSAgent grid start goal rnd = DFS_find_path grid start goal"
| "find_path BranchAndBoundAgent grid start goal rnd = BranchAndBound_find_path grid start goal"
| "find_path AStar grid start goal rnd = AStar_find_path grid start goal"

section \<open>Routes, costs and the contract of a grid\<close>

text \<open>The coordinates a grid enumerates as neighbours of a cell.\<close>

definition nbrs :: "Grid \<Rightarrow> coord \<Rightarrow> coord list" where
  "nbrs g p = map pos (neighbors4 g (fst p) (snd p))"

text \<open>Every step of a path goes to a cell the grid enumerates as a neighbour.\<close>

fun linked :: "Grid \<Rightarrow> coord list \<Rightarrow> bool" where
  "linked g (a # b # p) = (b \<in> set (nbrs g a) \<and> linked g (b # p))"
| "linked g p = True"

text \<open>Every consecutive pair of a path is 4-adjacent.\<close>

fun adjacent4 :: "coord list \<Rightarrow> bool" where
  "adjacent4 (a # b # p) = (manhattan a b = 1 \<and> adjacent4 (b # p))"
| "adjacent4 p = True"

text \<open>
  A route: a simple (non-self-intersecting) path from \<open>s\<close> to \<open>t\<close> along the grid's
  neighbour enumeration.
\<close>

definition is_route :: "Grid \<Rightarrow> coord \<Rightarrow> coord \<Rightarrow> coord list \<Rightarrow> bool" where
  "is_route g s t p = (p \<noteq> [] \<and> hd p = s \<and> last p = t \<and> distinct p \<and> linked g p)"

text \<open>
  Modelled from the spec: the total cost of a path.  A tile's cost is the cost "to enter
  it", so a path pays for every cell but its first.
\<close>

definition tile_cost :: "Grid \<Rightarrow> coord \<Rightarrow> int" where
  "tile_cost g p = cost (get g (fst p) (snd p))"

definition path_cost :: "Grid \<Rightarrow> coord list \<Rightarrow> int" where
  "path_cost g p = sum_list (map (tile_cost g) (tl p))"

definition in_bounds :: "nat \<Rightarrow> nat \<Rightarrow> coord \<Rightarrow> bool" where
  "in_bounds rows cols p = (0 \<le> fst p \<and> fst p < int rows \<and> 0 \<le> snd p \<and> snd p < int cols)"

text \<open>
  Modelled from the spec: what section 6 promises of a finite \<open>rows \<times> cols\<close> grid.
  \<open>neighbors4\<close> returns up to four tiles; each is in bounds, orthogonally adjacent to
  the cell asked for, and is the grid's tile at its coordinate (it carries that tile's
  entry cost).  Nothing is assumed about the order, nor that every adjacent cell is
  listed.
\<close>

definition grid_contract :: "nat \<Rightarrow> nat \<Rightarrow> Grid \<Rightarrow> bool" where
  "grid_contract rows cols g =
     (\<forall>r c. length (neighbors4 g r c) \<le> 4 \<and>
        (\<forall>t \<in> set (neighbors4 g r c).
           in_bounds rows cols (pos t) \<and> manhattan (r, c) (pos t) = 1 \<and>
           cost t = tile_cost g (pos t)))"

definition costs_at_least :: "int \<Rightarrow> Grid \<Rightarrow> bool" where
  "costs_at_least k g = (\<forall>p. k \<le> tile_cost g p)"

text \<open>
  Modelled from the spec: a concrete \<open>rows \<times> cols\<close> grid with entry costs \<open>costf\<close>, in
  which the cells listed in \<open>walls\<close> are never offered as neighbours.  The enumeration
  order (north, south, west, east) is one of those the contract allows.
\<close>

definition rect_grid :: "nat \<Rightarrow> nat \<Rightarrow> (coord \<Rightarrow> int) \<Rightarrow> coord list \<Rightarrow> Grid" where
  "rect_grid rows cols costf walls =
     \<lparr>neighbors4 = (\<lambda>r c.
        map (\<lambda>p. \<lparr>pos = p, cost = costf p\<rparr>)
          (filter (\<lambda>p. in_bounds rows cols p \<and> p \<notin> set walls)
             [(r - 1, c), (r + 1, c), (r, c - 1), (r, c + 1)])),
      get = (\<lambda>r c. \<lparr>pos = (r, c), cost = costf (r, c)\<rparr>)\<rparr>"

section \<open>Invariants of the frontier\<close>

text \<open>
  A partial path of the frontier: it starts at \<open>s\<close>, visits no cell twice, follows the
  grid's neighbour enumeration and stays inside the set \<open>C\<close> of cells.
\<close>

definition path_ok :: "Grid \<Rightarrow> coord \<Rightarrow> coord set \<Rightarrow> coord list \<Rightarrow> bool" where
  "path_ok g s C p = (p \<noteq> [] \<and> hd p = s \<and> distinct p \<and> linked g p \<and> set p \<subseteq> C)"

text \<open>Every route from \<open>s\<close> to \<open>t\<close> still has a prefix among the paths \<open>P\<close>.\<close>

definition cover :: "Grid \<Rightarrow> coord \<Rightarrow> coord \<Rightarrow> coord list set \<Rightarrow> bool" where
  "cover g s t P = (\<forall>q. is_route g s t q \<longrightarrow> (\<exists>p \<in> P. prefix p q))"

definition bb_inv :: "Grid \<Rightarrow> coord \<Rightarrow> coord set \<Rightarrow> bb_node list \<Rightarrow> bool" where
  "bb_inv g s C nodes =
     (\<forall>n \<in> set nodes. path_ok g s C (fst n) \<and> snd n = tile_cost g s + path_cost g (fst n))"

definition as_inv :: "Grid \<Rightarrow> coord \<Rightarrow> coord \<Rightarrow> coord set \<Rightarrow> as_node list \<Rightarrow> bool" where
  "as_inv g s t C nodes =
     (\<forall>n \<in> set nodes. path_ok g s C (fst n) \<and>
        fst (snd n) = tile_cost g s + path_cost g (fst n) \<and>
        snd (snd n) = manhattan (last (fst n)) t)"

text \<open>The cells of a \<open>rows \<times> cols\<close> grid, and the start cell (which may lie outside).\<close>

definition cells :: "nat \<Rightarrow> nat \<Rightarrow> coord \<Rightarrow> coord set" where
  "cells rows cols s = insert s ({0 ..< int rows} \<times> {0 ..< int cols})"

text \<open>The termination measure of the frontier loops.\<close>

definition weight :: "nat \<Rightarrow> coord list \<Rightarrow> nat" where
  "weight N p = 5 ^ (N - length p)"

text \<open>
  The outcome of an exhaustive best-first search: the empty path when there is no route,
  and otherwise a route whose (cost, length) is least among all routes.
\<close>

definition best_route :: "Grid \<Rightarrow> coord \<Rightarrow> coord \<Rightarrow> coord list \<Rightarrow> bool" where
  "best_route g s t p =
     (is_route g s t p \<and>
      (\<forall>q. is_route g s t q \<longrightarrow> (path_cost g p, length p) \<le> (path_cost g q, length q)))"

definition cheapest_route :: "Grid \<Rightarrow> coord \<Rightarrow> coord \<Rightarrow> coord list \<Rightarrow> bool" where
  "cheapest_route g s t p =
     (is_route g s t p \<and> (\<forall>q. is_route g s t q \<longrightarrow> path_cost g p \<le> path_cost g q))"

definition no_route :: "Grid \<Rightarrow> coord \<Rightarrow> coord \<Rightarrow> bool" where
  "no_route g s t = (\<forall>q. \<not> is_route g s t q)"

text \<open>The sort key of the DFS body, for the cell \<open>(r, c)\<close>.\<close>

definition dfs_key :: "int \<Rightarrow> int \<Rightarrow> Tile \<Rightarrow> int \<times> nat" where
  "dfs_key r c t = (cost t, the (directions (fst (pos t) - r, snd (pos t) - c)))"

text \<open>
  The invariant of the DFS loop: the stack is a simple path from \<open>s\<close> along the grid's
  neighbour enumeration, every step of it 4-adjacent, and all of it is marked visited.
\<close>

definition dfs_inv :: "Grid \<Rightarrow> coord \<Rightarrow> coord set \<Rightarrow> coord list \<times> coord set \<Rightarrow> bool" where
  "dfs_inv g s C st =
     (set (fst st) \<subseteq> snd st \<and> snd st \<subseteq> C \<and> distinct (fst st) \<and> linked g (fst st) \<and>
      adjacent4 (fst st) \<and> (fst st \<noteq> [] \<longrightarrow> hd (fst st) = s))"

text \<open>
  The second invariant, for completeness: \<open>s\<close> is visited, every visited cell that is
  no longer on the stack has all its neighbours visited, and the goal is visited only
  when it is the top of the stack.
\<close>

definition dfs_closed :: "Grid \<Rightarrow> coord \<Rightarrow> coord \<Rightarrow> coord list \<times> coord set \<Rightarrow> bool" where
  "dfs_closed g s t st =
     (s \<in> snd st \<and> (\<forall>v \<in> snd st - set (fst st). set (nbrs g v) \<subseteq> snd st) \<and>
      (t \<in> snd st \<longrightarrow> fst st \<noteq> [] \<and> last (fst st) = t))"

text \<open>
  Two concrete \<open>2 \<times> 3\<close> grids.  In \<open>detour_grid\<close> only the cell \<open>(0, 1)\<close> costs
  anything (1), so the way round it through the second row is free.  In \<open>toll_grid\<close>
  every cell costs 1 but \<open>(0, 1)\<close>, which costs 5.
\<close>

definition detour_grid :: Grid where
  "detour_grid = rect_grid 2 3 (\<lambda>p. if p = (0, 1) then 1 else 0) []"

definition toll_grid :: Grid where
  "toll_grid = rect_grid 2 3 (\<lambda>p. if p = (0, 1) then 5 else 1) []"

text \<open>
  Modelled from the spec: every tile \<open>neighbors4\<close> returns is orthogonally adjacent to the
  cell asked for (the part of the contract that the shape of a returned path rests on).
\<close>

definition adjacent_neighbors :: "Grid \<Rightarrow> bool" where
  "adjacent_neighbors g = (\<forall>r c. \<forall>t \<in> set (neighbors4 g r c). manhattan (r, c) (pos t) = 1)"

text \<open>The same grid, enumerating the neighbours of every cell in the opposite order.\<close>

definition flip_grid :: "Grid \<Rightarrow> Grid" where
  "flip_grid g = \<lparr>neighbors4 = (\<lambda>r c. rev (neighbors4 g r c)), get = get g\<rparr>"

text \<open>The \<open>3 \<times> 3\<close> grid without walls on which every tile costs \<open>u\<close>.\<close>

definition open_grid :: "int \<Rightarrow> Grid" where
  "open_grid u = rect_grid 3 3 (\<lambda>p. u) []"

text \<open>
  A \<open>1 \<times> 4\<close> corridor whose third cell is a wall: the last cell is cut off from the
  first two.
\<close>

definition walled_grid :: Grid where
  "walled_grid = rect_grid 1 4 (\<lambda>p. 1) [(0, 2)]"

text \<open>
  Every step of a path goes to a neighbour of the previous cell whose Manhattan distance
  to the goal is least among that cell's neighbours.
\<close>

fun greedy_steps :: "Grid \<Rightarrow> coord \<Rightarrow> coord list \<Rightarrow> bool" where
  "greedy_steps g goal (a # b # p) =
     (b \<in> set (nbrs g a) \<and> (\<forall>v \<in> set (nbrs g a). manhattan b goal \<le> manhattan v goal) \<and>
      greedy_steps g goal (b # p))"
| "greedy_steps g goal p = True"

text \<open>The random draws that always pick the first of the tied neighbours.\<close>

definition first_draw :: "nat \<Rightarrow> nat" where
  "first_draw i = 0"

section \<open>Lemmas: selection of the minimum, paths and routes\<close>

lemma py_min_mem: "py_min key b xs \<in> set (b # xs)"
  by (induction xs arbitrary: b) auto

lemma py_min_le_init: "key (py_min key b xs) \<le> key b"
proof (induction xs arbitrary: b)
  case Nil
  show ?case by simp
next
  case (Cons x xs)
  have "key (py_min key (if key x < key b then x else b) xs) \<le> key (if key x < key b then x else b)"
    by (rule Cons.IH)
  also have "\<dots> \<le> key b" by (simp add: less_imp_le)
  finally show ?case by simp
qed

lemma py_min_le: "x \<in> set (b # xs) \<Longrightarrow> key (py_min key b xs) \<le> key x"
proof (induction xs arbitrary: b)
  case Nil
  then show ?case by simp
next
  case (Cons y ys)
  let ?b = "if key y < key b then y else b"
  have init: "key (py_min key ?b ys) \<le> key ?b" by (rule py_min_le_init)
  from Cons.prems consider "x = b" | "x = y" | "x \<in> set ys" by auto
  then show ?case
  proof cases
    case 1
    with init show ?thesis by (auto split: if_splits)
  next
    case 2
    with init show ?thesis by (auto split: if_splits)
  next
    case 3
    then have "x \<in> set (?b # ys)" by simp
    from Cons.IH [OF this] show ?thesis by simp
  qed
qed

lemma linked_snoc:
  "linked g (p @ [v]) = (linked g p \<and> (p = [] \<or> v \<in> set (nbrs g (last p))))"
  by (induction g p rule: linked.induct) auto

lemma linked_append_step:
  "linked g (p @ v # r) \<Longrightarrow> p \<noteq> [] \<Longrightarrow> v \<in> set (nbrs g (last p))"
  by (induction g p rule: linked.induct) auto

lemma path_cost_snoc:
  "p \<noteq> [] \<Longrightarrow> path_cost g (p @ [v]) = path_cost g p + tile_cost g v"
  by (cases p) (simp_all add: path_cost_def)

lemma path_cost_prefix:
  assumes "costs_at_least 0 g" "prefix p q" "p \<noteq> []"
  shows "path_cost g p \<le> path_cost g q"
proof -
  from assms(2) obtain r where q: "q = p @ r" by (auto simp: prefix_def)
  have "0 \<le> sum_list (map (tile_cost g) r)"
    using assms(1) by (intro sum_list_nonneg) (auto simp: costs_at_least_def)
  with assms(3) show ?thesis
    by (cases p) (simp_all add: path_cost_def q)
qed

lemma path_ok_snoc:
  assumes "path_ok g s C p" "v \<in> set (nbrs g (last p))" "v \<notin> set p" "v \<in> C"
  shows "path_ok g s C (p @ [v])"
  using assms by (auto simp: path_ok_def linked_snoc)

lemma path_ok_route: "path_ok g s C p \<Longrightarrow> last p = t \<Longrightarrow> is_route g s t p"
  by (simp add: path_ok_def is_route_def)

lemma cover_step:
  assumes cov: "cover g s t P"
    and b: "b \<noteq> []" "last b \<noteq> t"
    and sub: "P - {b} \<subseteq> P'"
    and new: "\<And>v. v \<in> set (nbrs g (last b)) \<Longrightarrow> v \<notin> set b \<Longrightarrow> b @ [v] \<in> P'"
  shows "cover g s t P'"
  unfolding cover_def
proof (intro allI impI)
  fix q assume q: "is_route g s t q"
  with cov obtain p where p: "p \<in> P" "prefix p q" by (auto simp: cover_def)
  show "\<exists>p \<in> P'. prefix p q"
  proof (cases "p = b")
    case False
    with p sub show ?thesis by auto
  next
    case True
    from p(2) True obtain r where r: "q = b @ r" by (auto simp: prefix_def)
    from q b r have "r \<noteq> []" by (auto simp: is_route_def)
    then obtain v r' where r': "r = v # r'" by (cases r) auto
    from q have "linked g (b @ v # r')" "distinct (b @ v # r')"
      by (simp_all add: is_route_def r r')
    then have "v \<in> set (nbrs g (last b))" "v \<notin> set b"
      using linked_append_step [OF _ b(1)] by auto
    then have "b @ [v] \<in> P'" by (rule new)
    moreover have "prefix (b @ [v]) q" by (simp add: r r' prefix_def)
    ultimately show ?thesis by blast
  qed
qed

lemma cover_no_route: "cover g s t {} \<Longrightarrow> no_route g s t"
  by (auto simp: cover_def no_route_def)

lemma contract_nbrs:
  assumes "grid_contract rows cols g" "v \<in> set (nbrs g p)"
  shows "in_bounds rows cols v" "manhattan p v = 1"
  using assms by (cases p; auto simp: grid_contract_def nbrs_def)+

lemma in_cells: "in_bounds rows cols v \<Longrightarrow> v \<in> cells rows cols s"
  by (cases v) (auto simp: in_bounds_def cells_def)

lemma finite_cells: "finite (cells rows cols s)"
  by (simp add: cells_def)

lemma card_cells: "card (cells rows cols s) \<le> rows * cols + 1"
proof -
  have "card (cells rows cols s) \<le> Suc (card ({0 ..< int rows} \<times> {0 ..< int cols}))"
    unfolding cells_def by (rule card_insert_le_m1) simp_all
  then show ?thesis by (simp add: card_cartesian_product)
qed

lemma set_bb_expand:
  "set (bb_expand g b) =
     (\<lambda>t. (fst b @ [pos t], snd b + cost t)) `
       {t \<in> set (neighbors4 g (fst (last (fst b))) (snd (last (fst b)))). pos t \<notin> set (fst b)}"
  by (simp add: bb_expand_def case_prod_unfold Let_def)

lemma fst_bb_expand:
  "fst ` set (bb_expand g b) = (\<lambda>v. fst b @ [v]) ` {v \<in> set (nbrs g (last (fst b))). v \<notin> set (fst b)}"
  by (auto simp: set_bb_expand nbrs_def image_iff)

lemma bb_inv_step:
  assumes con: "grid_contract rows cols g"
    and inv: "bb_inv g s (cells rows cols s) nodes"
    and b: "b \<in> set nodes"
  shows "bb_inv g s (cells rows cols s) (remove1 b nodes @ bb_expand g b)"
  unfolding bb_inv_def
proof
  fix n assume n: "n \<in> set (remove1 b nodes @ bb_expand g b)"
  from inv b have ok: "path_ok g s (cells rows cols s) (fst b)"
    and cb: "snd b = tile_cost g s + path_cost g (fst b)" by (auto simp: bb_inv_def)
  show "path_ok g s (cells rows cols s) (fst n) \<and> snd n = tile_cost g s + path_cost g (fst n)"
  proof (cases "n \<in> set (remove1 b nodes)")
    case True
    then have "n \<in> set nodes" using set_remove1_subset by fast
    with inv show ?thesis by (auto simp: bb_inv_def)
  next
    case False
    with n have "n \<in> set (bb_expand g b)" by simp
    then obtain tl where tl: "tl \<in> set (neighbors4 g (fst (last (fst b))) (snd (last (fst b))))"
      "pos tl \<notin> set (fst b)" "n = (fst b @ [pos tl], snd b + cost tl)"
      by (auto simp: set_bb_expand)
    from tl(1) have v: "pos tl \<in> set (nbrs g (last (fst b)))" by (simp add: nbrs_def)
    from con tl(1) have c: "cost tl = tile_cost g (pos tl)" by (auto simp: grid_contract_def)
    from contract_nbrs(1) [OF con v] have "pos tl \<in> cells rows cols s" by (rule in_cells)
    with ok v tl(2) have "path_ok g s (cells rows cols s) (fst b @ [pos tl])" by (intro path_ok_snoc)
    moreover from ok have "fst b \<noteq> []" by (simp add: path_ok_def)
    ultimately show ?thesis by (simp add: tl(3) cb c path_cost_snoc)
  qed
qed

section \<open>Lemmas: branch and bound\<close>

lemma path_ok_length: "path_ok g s C p \<Longrightarrow> finite C \<Longrightarrow> length p \<le> card C"
  by (metis card_mono distinct_card path_ok_def)

lemma sum_list_scaled:
  fixes w :: "'a \<Rightarrow> nat"
  assumes "\<And>e. e \<in> set es \<Longrightarrow> 5 * w e = W"
  shows "5 * sum_list (map w es) = length es * W"
  using assms by (induction es) (simp_all add: algebra_simps)

lemma sum_list_children:
  fixes w :: "'a \<Rightarrow> nat"
  assumes "\<And>e. e \<in> set es \<Longrightarrow> 5 * w e = W" "length es \<le> 4" "0 < W"
  shows "sum_list (map w es) < W"
proof -
  have "5 * sum_list (map w es) = length es * W" using assms(1) by (rule sum_list_scaled)
  also have "\<dots> \<le> 4 * W" using assms(2) by simp
  also have "\<dots> < 5 * W" using assms(3) by simp
  finally show ?thesis by simp
qed

lemma weight_child:
  assumes "length p + 1 \<le> N"
  shows "5 * weight N (p @ [v]) = weight N p"
proof -
  from assms obtain k where "N - length p = Suc k" by (cases "N - length p") auto
  then show ?thesis by (simp add: weight_def)
qed

lemma length_bb_expand: "grid_contract rows cols g \<Longrightarrow> length (bb_expand g b) \<le> 4"
proof -
  assume con: "grid_contract rows cols g"
  have "length (bb_expand g b) \<le> length (neighbors4 g (fst (last (fst b))) (snd (last (fst b))))"
    by (simp add: bb_expand_def case_prod_unfold Let_def)
  also have "\<dots> \<le> 4" using con by (simp add: grid_contract_def)
  finally show ?thesis .
qed

lemma bb_measure_decrease:
  assumes con: "grid_contract rows cols g"
    and inv: "bb_inv g s (cells rows cols s) nodes"
    and b: "b \<in> set nodes"
  shows "sum_list (map (\<lambda>n. weight (card (cells rows cols s)) (fst n)) (remove1 b nodes @ bb_expand g b))
       < sum_list (map (\<lambda>n. weight (card (cells rows cols s)) (fst n)) nodes)"
proof -
  let ?N = "card (cells rows cols s)"
  let ?w = "\<lambda>n::bb_node. weight ?N (fst n)"
  have inv': "bb_inv g s (cells rows cols s) (remove1 b nodes @ bb_expand g b)"
    using con inv b by (rule bb_inv_step)
  have child: "5 * ?w e = ?w b" if e: "e \<in> set (bb_expand g b)" for e
  proof -
    from e inv' have "path_ok g s (cells rows cols s) (fst e)" by (auto simp: bb_inv_def)
    then have "length (fst e) \<le> ?N" by (rule path_ok_length) (rule finite_cells)
    moreover from e have "fst e \<in> fst ` set (bb_expand g b)" by simp
    then obtain v where v: "fst e = fst b @ [v]" unfolding fst_bb_expand by blast
    ultimately have "length (fst b) + 1 \<le> ?N" by simp
    then show ?thesis unfolding v by (rule weight_child)
  qed
  have "sum_list (map ?w (bb_expand g b)) < ?w b"
  proof (rule sum_list_children)
    show "5 * ?w e = ?w b" if "e \<in> set (bb_expand g b)" for e using that by (rule child)
    show "length (bb_expand g b) \<le> 4" using con by (rule length_bb_expand)
    show "0 < ?w b" by (simp add: weight_def)
  qed
  moreover have "sum_list (map ?w nodes) = ?w b + sum_list (map ?w (remove1 b nodes))"
    using b by (rule sum_list_map_remove1)
  ultimately show ?thesis by simp
qed

lemma set_remove1_sup: "set xs - {x} \<subseteq> set (remove1 x xs)"
  by (induction xs) auto

lemma bb_body_unfold:
  assumes "nodes = n # ns" "b = py_min bb_key n ns"
  shows "(case nodes of [] \<Rightarrow> Some (Inr [])
          | n # ns \<Rightarrow>
              let best = py_min bb_key n ns; nodes1 = remove1 best nodes
              in if fst best = [] then Some (Inl IndexError)
                 else if last (fst best) = goal then Some (Inr (fst best))
                 else F (nodes1 @ bb_expand grid best))
       = (if fst b = [] then Some (Inl IndexError)
          else if last (fst b) = goal then Some (Inr (fst b))
          else F (remove1 b nodes @ bb_expand grid b))"
  using assms by (simp add: Let_def)

lemma bb_loop_terminates:
  assumes con: "grid_contract rows cols g"
    and inv: "bb_inv g s (cells rows cols s) nodes"
  shows "\<exists>r. BranchAndBound_loop g t nodes = Some r"
  using inv
proof (induction "sum_list (map (\<lambda>n. weight (card (cells rows cols s)) (fst n)) nodes)"
    arbitrary: nodes rule: less_induct)
  case less
  show ?case
  proof (cases nodes)
    case Nil
    then show ?thesis by (simp add: BranchAndBound_loop.simps)
  next
    case (Cons n ns)
    define b where "b = py_min bb_key n ns"
    have b: "b \<in> set nodes" unfolding b_def Cons by (rule py_min_mem)
    have step: "BranchAndBound_loop g t nodes =
        (if fst b = [] then Some (Inl IndexError)
         else if last (fst b) = t then Some (Inr (fst b))
         else BranchAndBound_loop g t (remove1 b nodes @ bb_expand g b))"
      by (subst BranchAndBound_loop.simps) (rule bb_body_unfold [OF Cons b_def])
    show ?thesis
    proof (cases "fst b = [] \<or> last (fst b) = t")
      case True
      then show ?thesis by (auto simp: step)
    next
      case False
      have "\<exists>r. BranchAndBound_loop g t (remove1 b nodes @ bb_expand g b) = Some r"
        using bb_measure_decrease [OF con less.prems b] bb_inv_step [OF con less.prems b]
        by (rule less.hyps)
      with False show ?thesis by (simp add: step)
    qed
  qed
qed

lemma lex_le_mono:
  fixes a b :: int and l m :: nat
  assumes "a \<le> b" "l \<le> m"
  shows "(a, l) \<le> (b, m)"
  using assms by (auto simp: less_eq_prod_def)

lemma bb_loop_partial:
  assumes run: "BranchAndBound_loop g t nodes = Some r"
    and con: "grid_contract rows cols g"
    and inv: "bb_inv g s (cells rows cols s) nodes"
    and cov: "cover g s t (fst ` set nodes)"
  shows "(r = Inr [] \<and> no_route g s t) \<or>
         (\<exists>p. r = Inr p \<and> is_route g s t p \<and> (costs_at_least 0 g \<longrightarrow> best_route g s t p))"
  using con inv cov
proof (induction g t nodes r rule: BranchAndBound_loop.raw_induct)
  case (1 f g t nodes r)
  show ?case
  proof (cases nodes)
    case Nil
    with "1.hyps" have "r = Inr []" by simp
    moreover from "1.prems"(3) Nil have "no_route g s t" by (simp add: cover_no_route)
    ultimately show ?thesis by simp
  next
    case (Cons n ns)
    define b where "b = py_min bb_key n ns"
    have b: "b \<in> set nodes" unfolding b_def Cons by (rule py_min_mem)
    from "1.prems"(2) b have ok: "path_ok g s (cells rows cols s) (fst b)"
      and cb: "snd b = tile_cost g s + path_cost g (fst b)" by (auto simp: bb_inv_def)
    then have ne: "fst b \<noteq> []" by (simp add: path_ok_def)
    from "1.hyps" have step:
      "(if last (fst b) = t then Some (Inr (fst b))
        else f g t (remove1 b nodes @ bb_expand g b)) = Some r"
      unfolding bb_body_unfold [OF Cons b_def] by (simp add: ne)
    show ?thesis
    proof (cases "last (fst b) = t")
      case True
      with step have r: "r = Inr (fst b)" by simp
      from ok True have route: "is_route g s t (fst b)" by (rule path_ok_route)
      have "(path_cost g (fst b), length (fst b)) \<le> (path_cost g q, length q)"
        if q: "is_route g s t q" and nn: "costs_at_least 0 g" for q
      proof -
        from "1.prems"(3) q obtain p where p: "p \<in> set nodes" "prefix (fst p) q"
          by (auto simp: cover_def)
        from "1.prems"(2) p(1) have pok: "path_ok g s (cells rows cols s) (fst p)"
          and cp: "snd p = tile_cost g s + path_cost g (fst p)" by (auto simp: bb_inv_def)
        have "bb_key b \<le> bb_key p" unfolding b_def using p(1) Cons by (intro py_min_le) simp
        moreover have "path_cost g (fst p) \<le> path_cost g q"
          using nn p(2) pok by (intro path_cost_prefix) (auto simp: path_ok_def)
        moreover have "length (fst p) \<le> length q" using p(2) by (rule prefix_length_le)
        ultimately show ?thesis
          by (auto simp: bb_key_def cb cp less_eq_prod_def)
      qed
      with route r show ?thesis by (auto simp: best_route_def)
    next
      case False
      with step have run': "f g t (remove1 b nodes @ bb_expand g b) = Some r" by simp
      have inv': "bb_inv g s (cells rows cols s) (remove1 b nodes @ bb_expand g b)"
        using "1.prems"(1,2) b by (rule bb_inv_step)
      have cov': "cover g s t (fst ` set (remove1 b nodes @ bb_expand g b))"
      proof (rule cover_step [OF "1.prems"(3) ne False])
        have "fst ` set nodes - {fst b} \<subseteq> fst ` (set nodes - {b})" by auto
        also have "\<dots> \<subseteq> fst ` set (remove1 b nodes)"
          by (rule image_mono) (rule set_remove1_sup)
        finally show "fst ` set nodes - {fst b} \<subseteq> fst ` set (remove1 b nodes @ bb_expand g b)"
          by auto
      next
        fix v assume "v \<in> set (nbrs g (last (fst b)))" "v \<notin> set (fst b)"
        then have "fst b @ [v] \<in> fst ` set (bb_expand g b)" by (simp add: fst_bb_expand)
        then show "fst b @ [v] \<in> fst ` set (remove1 b nodes @ bb_expand g b)" by auto
      qed
      from "1.IH" [OF run' "1.prems"(1) inv' cov'] show ?thesis .
    qed
  qed
qed fact

section \<open>Lemmas: A*\<close>

lemma manhattan_self: "manhattan a a = 0"
  by (simp add: manhattan_def)

lemma manhattan_triangle: "manhattan a c \<le> manhattan a b + manhattan b c"
  by (simp add: manhattan_def)

lemma costs_at_leastD: "costs_at_least k g \<Longrightarrow> k \<le> tile_cost g p"
  unfolding costs_at_least_def by blast

lemma manhattan_admissible:
  assumes con: "grid_contract rows cols g" and c1: "costs_at_least 1 g"
  shows "p \<noteq> [] \<Longrightarrow> linked g (p @ r) \<Longrightarrow>
         path_cost g p + manhattan (last p) (last (p @ r)) \<le> path_cost g (p @ r)"
proof (induction r arbitrary: p)
  case Nil
  then show ?case by (simp add: manhattan_self)
next
  case (Cons v r)
  have v: "v \<in> set (nbrs g (last p))" using Cons.prems(2,1) by (rule linked_append_step)
  have adj: "manhattan (last p) v = 1" using con v by (rule contract_nbrs)
  have "1 \<le> tile_cost g v" using c1 by (rule costs_at_leastD)
  then have pc: "path_cost g p + 1 \<le> path_cost g (p @ [v])"
    using Cons.prems(1) by (simp add: path_cost_snoc)
  have ih: "path_cost g (p @ [v]) + manhattan v (last ((p @ [v]) @ r)) \<le> path_cost g ((p @ [v]) @ r)"
    using Cons.IH [of "p @ [v]"] Cons.prems(2) by simp
  have "manhattan (last p) (last (p @ v # r)) \<le> 1 + manhattan v (last (p @ v # r))"
    using manhattan_triangle [of "last p" "last (p @ v # r)" v] adj by simp
  with pc ih show ?case by simp
qed

lemma set_as_expand:
  "set (as_expand g t b) =
     (\<lambda>n. (fst b @ [pos n], fst (snd b) + cost n, manhattan (pos n) t)) `
       {n \<in> set (neighbors4 g (fst (last (fst b))) (snd (last (fst b)))). pos n \<notin> set (fst b)}"
  by (simp add: as_expand_def case_prod_unfold Let_def)

lemma fst_as_expand:
  "fst ` set (as_expand g t b) = (\<lambda>v. fst b @ [v]) ` {v \<in> set (nbrs g (last (fst b))). v \<notin> set (fst b)}"
  by (auto simp: set_as_expand nbrs_def image_iff)

lemma length_as_expand: "grid_contract rows cols g \<Longrightarrow> length (as_expand g t b) \<le> 4"
proof -
  assume con: "grid_contract rows cols g"
  have "length (as_expand g t b) \<le> length (neighbors4 g (fst (last (fst b))) (snd (last (fst b))))"
    by (simp add: as_expand_def case_prod_unfold Let_def)
  also have "\<dots> \<le> 4" using con by (simp add: grid_contract_def)
  finally show ?thesis .
qed

lemma as_inv_step:
  assumes con: "grid_contract rows cols g"
    and inv: "as_inv g s t (cells rows cols s) nodes"
    and b: "b \<in> set nodes"
  shows "as_inv g s t (cells rows cols s) (remove1 b nodes @ as_expand g t b)"
  unfolding as_inv_def
proof
  fix n assume n: "n \<in> set (remove1 b nodes @ as_expand g t b)"
  from inv b have ok: "path_ok g s (cells rows cols s) (fst b)"
    and cb: "fst (snd b) = tile_cost g s + path_cost g (fst b)" by (auto simp: as_inv_def)
  show "path_ok g s (cells rows cols s) (fst n) \<and>
        fst (snd n) = tile_cost g s + path_cost g (fst n) \<and>
        snd (snd n) = manhattan (last (fst n)) t"
  proof (cases "n \<in> set (remove1 b nodes)")
    case True
    then have "n \<in> set nodes" using set_remove1_subset by fast
    with inv show ?thesis by (auto simp: as_inv_def)
  next
    case False
    with n have "n \<in> set (as_expand g t b)" by simp
    then obtain tl where tl: "tl \<in> set (neighbors4 g (fst (last (fst b))) (snd (last (fst b))))"
      "pos tl \<notin> set (fst b)"
      "n = (fst b @ [pos tl], fst (snd b) + cost tl, manhattan (pos tl) t)"
      by (auto simp: set_as_expand)
    from tl(1) have v: "pos tl \<in> set (nbrs g (last (fst b)))" by (simp add: nbrs_def)
    from con tl(1) have c: "cost tl = tile_cost g (pos tl)" by (auto simp: grid_contract_def)
    from contract_nbrs(1) [OF con v] have "pos tl \<in> cells rows cols s" by (rule in_cells)
    with ok v tl(2) have "path_ok g s (cells rows cols s) (fst b @ [pos tl])" by (intro path_ok_snoc)
    moreover from ok have "fst b \<noteq> []" by (simp add: path_ok_def)
    ultimately show ?thesis by (simp add: tl(3) cb c path_cost_snoc)
  qed
qed

lemma as_measure_decrease:
  assumes con: "grid_contract rows cols g"
    and inv: "as_inv g s t (cells rows cols s) nodes"
    and b: "b \<in> set nodes"
  shows "sum_list (map (\<lambda>n. weight (card (cells rows cols s)) (fst n)) (remove1 b nodes @ as_expand g t b))
       < sum_list (map (\<lambda>n. weight (card (cells rows cols s)) (fst n)) nodes)"
proof -
  let ?N = "card (cells rows cols s)"
  let ?w = "\<lambda>n::as_node. weight ?N (fst n)"
  have inv': "as_inv g s t (cells rows cols s) (remove1 b nodes @ as_expand g t b)"
    using con inv b by (rule as_inv_step)
  have child: "5 * ?w e = ?w b" if e: "e \<in> set (as_expand g t b)" for e
  proof -
    from e inv' have "path_ok g s (cells rows cols s) (fst e)" by (auto simp: as_inv_def)
    then have "length (fst e) \<le> ?N" by (rule path_ok_length) (rule finite_cells)
    moreover from e have "fst e \<in> fst ` set (as_expand g t b)" by simp
    then obtain v where v: "fst e = fst b @ [v]" unfolding fst_as_expand by blast
    ultimately have "length (fst b) + 1 \<le> ?N" by simp
    then show ?thesis unfolding v by (rule weight_child)
  qed
  have "sum_list (map ?w (as_expand g t b)) < ?w b"
  proof (rule sum_list_children)
    show "5 * ?w e = ?w b" if "e \<in> set (as_expand g t b)" for e using that by (rule child)
    show "length (as_expand g t b) \<le> 4" using con by (rule length_as_expand)
    show "0 < ?w b" by (simp add: weight_def)
  qed
  moreover have "sum_list (map ?w nodes) = ?w b + sum_list (map ?w (remove1 b nodes))"
    using b by (rule sum_list_map_remove1)
  ultimately show ?thesis by simp
qed

lemma as_body_unfold:
  assumes "nodes = n # ns" "b = py_min as_key n ns"
  shows "(case nodes of [] \<Rightarrow> Some (Inr [])
          | n # ns \<Rightarrow>
              let best = py_min as_key n ns; nodes1 = remove1 best nodes
              in if fst best = [] then Some (Inl IndexError)
                 else if last (fst best) = goal then Some (Inr (fst best))
                 else F (nodes1 @ as_expand grid goal best))
       = (if fst b = [] then Some (Inl IndexError)
          else if last (fst b) = goal then Some (Inr (fst b))
          else F (remove1 b nodes @ as_expand grid goal b))"
  using assms by (simp add: Let_def)

lemma as_loop_terminates:
  assumes con: "grid_contract rows cols g"
    and inv: "as_inv g s t (cells rows cols s) nodes"
  shows "\<exists>r. AStar_loop g t nodes = Some r"
  using inv
proof (induction "sum_list (map (\<lambda>n. weight (card (cells rows cols s)) (fst n)) nodes)"
    arbitrary: nodes rule: less_induct)
  case less
  show ?case
  proof (cases nodes)
    case Nil
    then show ?thesis by (simp add: AStar_loop.simps)
  next
    case (Cons n ns)
    define b where "b = py_min as_key n ns"
    have b: "b \<in> set nodes" unfolding b_def Cons by (rule py_min_mem)
    have step: "AStar_loop g t nodes =
        (if fst b = [] then Some (Inl IndexError)
         else if last (fst b) = t then Some (Inr (fst b))
         else AStar_loop g t (remove1 b nodes @ as_expand g t b))"
      by (subst AStar_loop.simps) (rule as_body_unfold [OF Cons b_def])
    show ?thesis
    proof (cases "fst b = [] \<or> last (fst b) = t")
      case True
      then show ?thesis by (auto simp: step)
    next
      case False
      have "\<exists>r. AStar_loop g t (remove1 b nodes @ as_expand g t b) = Some r"
        using as_measure_decrease [OF con less.prems b] as_inv_step [OF con less.prems b]
        by (rule less.hyps)
      with False show ?thesis by (simp add: step)
    qed
  qed
qed

lemma as_loop_partial:
  assumes run: "AStar_loop g t nodes = Some r"
    and con: "grid_contract rows cols g"
    and inv: "as_inv g s t (cells rows cols s) nodes"
    and cov: "cover g s t (fst ` set nodes)"
  shows "(r = Inr [] \<and> no_route g s t) \<or>
         (\<exists>p. r = Inr p \<and> is_route g s t p \<and> (costs_at_least 1 g \<longrightarrow> cheapest_route g s t p))"
  using con inv cov
proof (induction g t nodes r rule: AStar_loop.raw_induct)
  case (1 f g t nodes r)
  show ?case
  proof (cases nodes)
    case Nil
    with "1.hyps" have "r = Inr []" by simp
    moreover from "1.prems"(3) Nil have "no_route g s t" by (simp add: cover_no_route)
    ultimately show ?thesis by simp
  next
    case (Cons n ns)
    define b where "b = py_min as_key n ns"
    have b: "b \<in> set nodes" unfolding b_def Cons by (rule py_min_mem)
    from "1.prems"(2) b have ok: "path_ok g s (cells rows cols s) (fst b)"
      and cb: "fst (snd b) = tile_cost g s + path_cost g (fst b)"
      and hb: "snd (snd b) = manhattan (last (fst b)) t" by (auto simp: as_inv_def)
    then have ne: "fst b \<noteq> []" by (simp add: path_ok_def)
    from "1.hyps" have step:
      "(if last (fst b) = t then Some (Inr (fst b))
        else f g t (remove1 b nodes @ as_expand g t b)) = Some r"
      unfolding as_body_unfold [OF Cons b_def] by (simp add: ne)
    show ?thesis
    proof (cases "last (fst b) = t")
      case True
      with step have r: "r = Inr (fst b)" by simp
      from ok True have route: "is_route g s t (fst b)" by (rule path_ok_route)
      have "path_cost g (fst b) \<le> path_cost g q"
        if q: "is_route g s t q" and c1: "costs_at_least 1 g" for q
      proof -
        from "1.prems"(3) q obtain p where p: "p \<in> set nodes" "prefix (fst p) q"
          by (auto simp: cover_def)
        from "1.prems"(2) p(1) have pok: "path_ok g s (cells rows cols s) (fst p)"
          and cp: "fst (snd p) = tile_cost g s + path_cost g (fst p)"
          and hp: "snd (snd p) = manhattan (last (fst p)) t" by (auto simp: as_inv_def)
        from p(2) obtain r' where r': "q = fst p @ r'" by (auto simp: prefix_def)
        have "as_key b \<le> as_key p" unfolding b_def using p(1) Cons by (intro py_min_le) simp
        then have "fst (snd b) + snd (snd b) \<le> fst (snd p) + snd (snd p)"
          by (auto simp: as_key_def less_eq_prod_def)
        moreover have "path_cost g (fst p) + manhattan (last (fst p)) (last (fst p @ r')) \<le> path_cost g (fst p @ r')"
          using "1.prems"(1) c1 by (rule manhattan_admissible) (use pok q r' in \<open>auto simp: path_ok_def is_route_def\<close>)
        moreover have "last q = t" using q by (simp add: is_route_def)
        ultimately show ?thesis
          by (simp add: cb cp hb hp True manhattan_self r')
      qed
      with route r show ?thesis by (auto simp: cheapest_route_def)
    next
      case False
      with step have run': "f g t (remove1 b nodes @ as_expand g t b) = Some r" by simp
      have inv': "as_inv g s t (cells rows cols s) (remove1 b nodes @ as_expand g t b)"
        using "1.prems"(1,2) b by (rule as_inv_step)
      have cov': "cover g s t (fst ` set (remove1 b nodes @ as_expand g t b))"
      proof (rule cover_step [OF "1.prems"(3) ne False])
        have "fst ` set nodes - {fst b} \<subseteq> fst ` (set nodes - {b})" by auto
        also have "\<dots> \<subseteq> fst ` set (remove1 b nodes)"
          by (rule image_mono) (rule set_remove1_sup)
        finally show "fst ` set nodes - {fst b} \<subseteq> fst ` set (remove1 b nodes @ as_expand g t b)"
          by auto
      next
        fix v assume "v \<in> set (nbrs g (last (fst b)))" "v \<notin> set (fst b)"
        then have "fst b @ [v] \<in> fst ` set (as_expand g t b)" by (simp add: fst_as_expand)
        then show "fst b @ [v] \<in> fst ` set (remove1 b nodes @ as_expand g t b)" by auto
      qed
      from "1.IH" [OF run' "1.prems"(1) inv' cov'] show ?thesis .
    qed
  qed
qed fact

section \<open>Lemmas: depth-first search\<close>

lemma directions_adjacent:
  "directions (fst v - r, snd v - c) \<noteq> None \<Longrightarrow> manhattan (r, c) v = 1"
  by (auto simp: directions_def manhattan_def split: if_splits)

lemma adjacent_directions:
  "manhattan (r, c) v = 1 \<Longrightarrow> directions (fst v - r, snd v - c) \<noteq> None"
  by (cases v) (auto simp: directions_def manhattan_def)

lemma directions_inj:
  "directions d = Some k \<Longrightarrow> directions d' = Some k \<Longrightarrow> d = d'"
  by (auto simp: directions_def split: if_splits)

lemma adjacent4_snoc:
  "adjacent4 (p @ [v]) = (adjacent4 p \<and> (p = [] \<or> manhattan (last p) v = 1))"
  by (induction p rule: adjacent4.induct) auto

lemma linked_butlast: "linked g p \<Longrightarrow> linked g (butlast p)"
  by (induction g p rule: linked.induct) (auto split: if_splits)

lemma adjacent4_butlast: "adjacent4 p \<Longrightarrow> adjacent4 (butlast p)"
  by (induction p rule: adjacent4.induct) (auto split: if_splits)

lemma hd_sort_key:
  assumes "xs \<noteq> []"
  shows "hd (sort_key f xs) \<in> set xs" "x \<in> set xs \<Longrightarrow> f (hd (sort_key f xs)) \<le> f x"
proof -
  let ?ys = "sort_key f xs"
  have ne: "?ys \<noteq> []" using assms by (metis length_0_conv length_sort)
  then obtain y ys where ys: "?ys = y # ys" by (cases ?ys) auto
  have "set ?ys = set xs" by simp
  then show "hd ?ys \<in> set xs" using ne by (metis hd_in_set)
  assume "x \<in> set xs"
  then have "x \<in> set ?ys" by simp
  moreover have "sorted (map f ?ys)" by simp
  ultimately show "f (hd ?ys) \<le> f x" unfolding ys by auto
qed

lemma DFS_step_unfold:
  assumes "nodes \<noteq> []"
  shows "DFS_step g (nodes, visited) =
    (let unvisited = filter (\<lambda>tile. pos tile \<notin> visited) (neighbors4 g (fst (last nodes)) (snd (last nodes)))
     in if \<exists>t \<in> set unvisited. directions (fst (pos t) - fst (last nodes), snd (pos t) - snd (last nodes)) = None
        then Inl KeyError
        else if unvisited = [] then Inr (butlast nodes, visited)
        else Inr (nodes @ [pos (hd (sort_key (dfs_key (fst (last nodes)) (snd (last nodes))) unvisited))],
                  insert (pos (hd (sort_key (dfs_key (fst (last nodes)) (snd (last nodes))) unvisited))) visited))"
proof -
  have dk: "(\<lambda>t. (cost t, the (directions (fst (pos t) - r, snd (pos t) - c)))) = dfs_key r c" for r c
    by (simp add: dfs_key_def fun_eq_iff)
  have se: "(sort_key f xs = []) = (xs = [])" for f :: "Tile \<Rightarrow> int \<times> nat" and xs
    by (metis length_0_conv length_sort)
  show ?thesis
    using assms by (simp add: DFS_step_def case_prod_unfold Let_def list_ex_iff dk se)
qed

lemma DFS_step_cases:
  assumes "DFS_step g (nodes, visited) = Inr (nodes', visited')" "nodes \<noteq> []"
  shows "(nodes' = butlast nodes \<and> visited' = visited \<and> set (nbrs g (last nodes)) \<subseteq> visited) \<or>
         (\<exists>v. v \<in> set (nbrs g (last nodes)) \<and> v \<notin> visited \<and> manhattan (last nodes) v = 1 \<and>
              nodes' = nodes @ [v] \<and> visited' = insert v visited)"
proof -
  let ?r = "fst (last nodes)" and ?c = "snd (last nodes)"
  let ?unv = "filter (\<lambda>tile. pos tile \<notin> visited) (neighbors4 g ?r ?c)"
  let ?bt = "hd (sort_key (dfs_key ?r ?c) ?unv)"
  from assms have dirs: "\<forall>t \<in> set ?unv. directions (fst (pos t) - ?r, snd (pos t) - ?c) \<noteq> None"
    by (auto simp: DFS_step_unfold Let_def split: if_splits)
  show ?thesis
  proof (cases "?unv = []")
    case True
    with assms dirs have "nodes' = butlast nodes" "visited' = visited"
      by (auto simp: DFS_step_unfold Let_def split: if_splits)
    moreover from True have "set (nbrs g (last nodes)) \<subseteq> visited"
      by (auto simp: nbrs_def filter_empty_conv)
    ultimately show ?thesis by simp
  next
    case False
    with assms dirs have res: "nodes' = nodes @ [pos ?bt]" "visited' = insert (pos ?bt) visited"
      by (auto simp: DFS_step_unfold Let_def split: if_splits)
    define v where "v = pos ?bt"
    from False have bt: "?bt \<in> set ?unv" by (rule hd_sort_key)
    then have "v \<in> set (nbrs g (last nodes))" "v \<notin> visited" by (auto simp: nbrs_def v_def)
    moreover from bt dirs have "manhattan (?r, ?c) v = 1"
      unfolding v_def by (intro directions_adjacent) blast
    then have "manhattan (last nodes) v = 1" by simp
    moreover from res have "nodes' = nodes @ [v]" "visited' = insert v visited"
      by (simp_all add: v_def)
    ultimately show ?thesis by blast
  qed
qed

lemma DFS_step_no_error:
  assumes con: "grid_contract rows cols g" and ne: "nodes \<noteq> []"
  shows "\<exists>s'. DFS_step g (nodes, visited) = Inr s'"
proof -
  have "directions (fst (pos t) - fst (last nodes), snd (pos t) - snd (last nodes)) \<noteq> None"
    if "t \<in> set (neighbors4 g (fst (last nodes)) (snd (last nodes)))" for t
  proof (rule adjacent_directions)
    from con that show "manhattan (fst (last nodes), snd (last nodes)) (pos t) = 1"
      unfolding grid_contract_def by blast
  qed
  then show ?thesis using ne by (auto simp: DFS_step_unfold Let_def)
qed

lemma hd_butlast_ne: "butlast p \<noteq> [] \<Longrightarrow> hd (butlast p) = hd p"
  by (cases p) auto

lemma set_butlast_distinct:
  "distinct p \<Longrightarrow> p \<noteq> [] \<Longrightarrow> set (butlast p) = set p - {last p}"
proof -
  assume d: "distinct p" and ne: "p \<noteq> []"
  then have "distinct (butlast p @ [last p])" by simp
  then have "last p \<notin> set (butlast p)" by simp
  moreover have "set p = set (butlast p @ [last p])" using ne by simp
  ultimately show ?thesis by auto
qed

lemma dfs_inv_step:
  assumes inv: "dfs_inv g s C (nodes, visited)"
    and ne: "nodes \<noteq> []"
    and step: "DFS_step g (nodes, visited) = Inr st'"
    and clo: "set (nbrs g (last nodes)) \<subseteq> C"
  shows "dfs_inv g s C st'"
proof -
  obtain nodes' visited' where st': "st' = (nodes', visited')" by (cases st')
  from DFS_step_cases [OF step [unfolded st'] ne]
  show ?thesis
  proof (elim disjE conjE exE)
    assume a: "nodes' = butlast nodes" "visited' = visited"
    from inv have "set (butlast nodes) \<subseteq> visited"
      by (auto simp: dfs_inv_def dest: in_set_butlastD)
    moreover from inv have "distinct (butlast nodes)" "linked g (butlast nodes)"
      "adjacent4 (butlast nodes)" "visited \<subseteq> C"
      by (simp_all add: dfs_inv_def distinct_butlast linked_butlast adjacent4_butlast)
    moreover from inv ne have "butlast nodes \<noteq> [] \<longrightarrow> hd (butlast nodes) = s"
      by (simp add: dfs_inv_def hd_butlast_ne)
    ultimately show ?thesis unfolding st' a dfs_inv_def by simp
  next
    fix v assume v: "v \<in> set (nbrs g (last nodes))" "v \<notin> visited"
      "manhattan (last nodes) v = 1" "nodes' = nodes @ [v]" "visited' = insert v visited"
    from inv have i: "set nodes \<subseteq> visited" "visited \<subseteq> C" "distinct nodes" "linked g nodes"
      "adjacent4 nodes" "hd nodes = s" using ne by (simp_all add: dfs_inv_def)
    from v(1) clo have "v \<in> C" by blast
    moreover from i(1) v(2) have "v \<notin> set nodes" by blast
    ultimately show ?thesis
      unfolding st' v(4,5) dfs_inv_def using i v(1,3) ne
      by (simp add: linked_snoc adjacent4_snoc subset_insertI2)
  qed
qed

lemma dfs_closed_step:
  assumes inv: "dfs_inv g s C (nodes, visited)"
    and cl: "dfs_closed g s t (nodes, visited)"
    and ne: "nodes \<noteq> []" and nt: "last nodes \<noteq> t"
    and step: "DFS_step g (nodes, visited) = Inr st'"
  shows "dfs_closed g s t st'"
proof -
  obtain nodes' visited' where st': "st' = (nodes', visited')" by (cases st')
  from cl ne nt have tv: "t \<notin> visited" by (auto simp: dfs_closed_def)
  from DFS_step_cases [OF step [unfolded st'] ne]
  show ?thesis
  proof (elim disjE conjE exE)
    assume a: "nodes' = butlast nodes" "visited' = visited" "set (nbrs g (last nodes)) \<subseteq> visited"
    from inv have "distinct nodes" by (simp add: dfs_inv_def)
    then have sb: "set (butlast nodes) = set nodes - {last nodes}"
      using ne by (rule set_butlast_distinct)
    have "set (nbrs g w) \<subseteq> visited" if "w \<in> visited - set (butlast nodes)" for w
    proof (cases "w = last nodes")
      case True
      with a(3) show ?thesis by simp
    next
      case False
      with that sb have "w \<in> visited - set nodes" by blast
      with cl show ?thesis unfolding dfs_closed_def by simp
    qed
    moreover from cl have "s \<in> visited" by (simp add: dfs_closed_def)
    ultimately show ?thesis
      unfolding st' a(1,2) dfs_closed_def using tv by simp
  next
    fix v assume v: "v \<in> set (nbrs g (last nodes))" "v \<notin> visited"
      "manhattan (last nodes) v = 1" "nodes' = nodes @ [v]" "visited' = insert v visited"
    have "set (nbrs g w) \<subseteq> insert v visited" if "w \<in> insert v visited - set (nodes @ [v])" for w
    proof -
      from that have "w \<in> visited - set nodes" by auto
      with cl have "set (nbrs g w) \<subseteq> visited" unfolding dfs_closed_def by simp
      then show ?thesis by blast
    qed
    moreover from cl have "s \<in> insert v visited" by (simp add: dfs_closed_def)
    ultimately show ?thesis
      unfolding st' v(4,5) dfs_closed_def using tv by simp
  qed
qed

lemma DFS_fuel_loop: "DFS_fuel n g t st = Some r \<Longrightarrow> DFS_loop g t st = Some r"
proof (induction n arbitrary: st)
  case 0
  then show ?case by (subst DFS_loop.simps) (auto split: if_splits)
next
  case (Suc n)
  show ?case
  proof (cases "fst st \<noteq> [] \<and> last (fst st) \<noteq> t")
    case False
    with Suc.prems show ?thesis by (subst DFS_loop.simps) auto
  next
    case True
    show ?thesis
    proof (cases "DFS_step g st")
      case (Inl e)
      with True Suc.prems show ?thesis by (subst DFS_loop.simps) auto
    next
      case (Inr st')
      with True Suc.prems have "DFS_fuel n g t st' = Some r" by simp
      then have "DFS_loop g t st' = Some r" by (rule Suc.IH)
      with True Inr show ?thesis by (subst DFS_loop.simps) simp
    qed
  qed
qed

lemma DFS_loop_fuel:
  assumes "DFS_loop g t st = Some r"
  shows "\<exists>n. DFS_fuel n g t st = Some r"
proof (induction g t st r rule: DFS_loop.raw_induct)
  case (1 f g t st r)
  show ?case
  proof (cases "fst st \<noteq> [] \<and> last (fst st) \<noteq> t")
    case False
    with "1.hyps" have "DFS_fuel 0 g t st = Some r" by auto
    then show ?thesis ..
  next
    case True
    show ?thesis
    proof (cases "DFS_step g st")
      case (Inl e)
      with True "1.hyps" have "DFS_fuel (Suc 0) g t st = Some r" by auto
      then show ?thesis ..
    next
      case (Inr st')
      with True "1.hyps" have "f g t st' = Some r" by simp
      then obtain n where "DFS_fuel n g t st' = Some r" using "1.IH" by blast
      with True Inr have "DFS_fuel (Suc n) g t st = Some r" by simp
      then show ?thesis ..
    qed
  qed
qed fact

lemma DFS_loop_iff_fuel: "DFS_loop g t st = Some r \<longleftrightarrow> (\<exists>n. DFS_fuel n g t st = Some r)"
  using DFS_fuel_loop DFS_loop_fuel by blast

text \<open>Partial correctness, on the fuelled loop.\<close>

lemma DFS_fuel_inv:
  assumes "DFS_fuel n g t st = Some (Inr p)" "dfs_inv g s UNIV st"
  shows "(p = [] \<or> last p = t) \<and> (\<exists>vis. dfs_inv g s UNIV (p, vis))"
  using assms
proof (induction n arbitrary: st)
  case 0
  then show ?case by (cases st) (auto split: if_splits)
next
  case (Suc n)
  obtain nodes visited where st: "st = (nodes, visited)" by (cases st)
  show ?case
  proof (cases "nodes \<noteq> [] \<and> last nodes \<noteq> t")
    case False
    with Suc.prems show ?thesis by (auto simp: st)
  next
    case True
    with Suc.prems(1) obtain st' where st': "DFS_step g (nodes, visited) = Inr st'"
      "DFS_fuel n g t st' = Some (Inr p)"
      by (auto simp: st split: sum.splits)
    have "dfs_inv g s UNIV st'"
      using Suc.prems(2) [unfolded st] _ st'(1) by (rule dfs_inv_step) (use True in auto)
    with st'(2) show ?thesis by (rule Suc.IH)
  qed
qed

lemma DFS_fuel_complete:
  assumes "DFS_fuel n g t st = Some (Inr [])" "dfs_inv g s UNIV st" "dfs_closed g s t st"
  shows "\<exists>vis. dfs_closed g s t ([], vis)"
  using assms
proof (induction n arbitrary: st)
  case 0
  then show ?case by (cases st) (auto split: if_splits)
next
  case (Suc n)
  obtain nodes visited where st: "st = (nodes, visited)" by (cases st)
  show ?case
  proof (cases "nodes \<noteq> [] \<and> last nodes \<noteq> t")
    case False
    with Suc.prems show ?thesis by (auto simp: st)
  next
    case True
    with Suc.prems(1) obtain st' where st': "DFS_step g (nodes, visited) = Inr st'"
      "DFS_fuel n g t st' = Some (Inr [])"
      by (auto simp: st split: sum.splits)
    have "dfs_inv g s UNIV st'"
      using Suc.prems(2) [unfolded st] _ st'(1) by (rule dfs_inv_step) (use True in auto)
    moreover have "dfs_closed g s t st'"
      using Suc.prems(2,3) [unfolded st] _ _ st'(1) by (rule dfs_closed_step) (use True in auto)
    ultimately show ?thesis using st'(2) by (intro Suc.IH)
  qed
qed

lemma closed_linked:
  "linked g p \<Longrightarrow> \<forall>v \<in> V. set (nbrs g v) \<subseteq> V \<Longrightarrow> p \<noteq> [] \<Longrightarrow> hd p \<in> V \<Longrightarrow> set p \<subseteq> V"
proof (induction g p rule: linked.induct)
  case (1 g a b p)
  from "1.prems" have a: "a \<in> V" and b: "b \<in> set (nbrs g a)" and l: "linked g (b # p)"
    by simp_all
  from a b "1.prems"(2) have "b \<in> V" by blast
  with l "1.IH" "1.prems"(2) have "set (b # p) \<subseteq> V" by simp
  with a show ?case by simp
qed simp_all

lemma closed_no_route:
  assumes "\<forall>v \<in> V. set (nbrs g v) \<subseteq> V" "s \<in> V" "t \<notin> V"
  shows "no_route g s t"
  unfolding no_route_def is_route_def
proof (intro allI notI)
  fix q assume q: "q \<noteq> [] \<and> hd q = s \<and> last q = t \<and> distinct q \<and> linked g q"
  then have "set q \<subseteq> V" using assms(1,2) by (intro closed_linked [of g q V]) auto
  moreover from q have "t \<in> set q" by (metis last_in_set)
  ultimately show False using assms(3) by auto
qed

lemma dfs_closed_empty: "dfs_closed g s t ([], vis) \<Longrightarrow> no_route g s t"
  by (rule closed_no_route [of vis]) (auto simp: dfs_closed_def)

section \<open>Lemmas: the concrete grids and the frontier searches as a whole\<close>

lemma rect_grid_contract: "grid_contract rows cols (rect_grid rows cols costf walls)"
  unfolding grid_contract_def
proof (intro allI conjI ballI)
  fix r c
  show "length (neighbors4 (rect_grid rows cols costf walls) r c) \<le> 4"
    by (simp add: rect_grid_def)
  have nb: "neighbors4 (rect_grid rows cols costf walls) r c =
      map (\<lambda>p. \<lparr>pos = p, cost = costf p\<rparr>)
        (filter (\<lambda>p. in_bounds rows cols p \<and> p \<notin> set walls)
           [(r - 1, c), (r + 1, c), (r, c - 1), (r, c + 1)])"
    by (simp add: rect_grid_def del: filter.simps)
  fix t assume "t \<in> set (neighbors4 (rect_grid rows cols costf walls) r c)"
  then obtain p where p: "p \<in> set [(r - 1, c), (r + 1, c), (r, c - 1), (r, c + 1)]"
    "in_bounds rows cols p" "t = \<lparr>pos = p, cost = costf p\<rparr>"
    unfolding nb set_map set_filter by blast
  from p(2,3) show "in_bounds rows cols (pos t)" by simp
  from p(1,3) show "manhattan (r, c) (pos t) = 1" by (auto simp: manhattan_def)
  from p(3) show "cost t = tile_cost (rect_grid rows cols costf walls) (pos t)"
    by (simp add: tile_cost_def rect_grid_def)
qed

lemma tile_cost_rect_grid: "tile_cost (rect_grid rows cols costf walls) p = costf p"
  by (simp add: tile_cost_def rect_grid_def)

lemma nbrs_rect_grid:
  "nbrs (rect_grid rows cols costf walls) p =
     filter (\<lambda>p. in_bounds rows cols p \<and> p \<notin> set walls)
       [(fst p - 1, snd p), (fst p + 1, snd p), (fst p, snd p - 1), (fst p, snd p + 1)]"
  by (simp add: nbrs_def rect_grid_def comp_def)

lemma cover_init: "cover g s t {[s]}"
  unfolding cover_def
proof (intro allI impI)
  fix q assume "is_route g s t q"
  then obtain r where "q = s # r" by (cases q) (auto simp: is_route_def)
  then show "\<exists>p \<in> {[s]}. prefix p q" by simp
qed

lemma path_ok_init: "path_ok g s (cells rows cols s) [s]"
  by (simp add: path_ok_def cells_def)

lemma bb_find_path_result:
  assumes con: "grid_contract rows cols g"
  shows "\<exists>r. BranchAndBound_find_path g s t = Some r \<and>
           ((r = Inr [] \<and> no_route g s t) \<or>
            (\<exists>p. r = Inr p \<and> is_route g s t p \<and> (costs_at_least 0 g \<longrightarrow> best_route g s t p)))"
proof -
  let ?init = "[([s], tile_cost g s)] :: bb_node list"
  have fp: "BranchAndBound_find_path g s t = BranchAndBound_loop g t ?init"
    by (simp add: BranchAndBound_find_path_def tile_cost_def case_prod_unfold)
  have inv: "bb_inv g s (cells rows cols s) ?init"
    by (simp add: bb_inv_def path_ok_init path_cost_def)
  have cov: "cover g s t (fst ` set ?init)" by (simp add: cover_init)
  from bb_loop_terminates [OF con inv] obtain r where r: "BranchAndBound_loop g t ?init = Some r" ..
  from bb_loop_partial [OF r con inv cov] r show ?thesis unfolding fp by blast
qed

lemma as_find_path_result:
  assumes con: "grid_contract rows cols g"
  shows "\<exists>r. AStar_find_path g s t = Some r \<and>
           ((r = Inr [] \<and> no_route g s t) \<or>
            (\<exists>p. r = Inr p \<and> is_route g s t p \<and> (costs_at_least 1 g \<longrightarrow> cheapest_route g s t p)))"
proof -
  let ?init = "[([s], tile_cost g s, manhattan s t)] :: as_node list"
  have fp: "AStar_find_path g s t = AStar_loop g t ?init"
    by (simp add: AStar_find_path_def tile_cost_def case_prod_unfold)
  have inv: "as_inv g s t (cells rows cols s) ?init"
    by (simp add: as_inv_def path_ok_init path_cost_def)
  have cov: "cover g s t (fst ` set ?init)" by (simp add: cover_init)
  from as_loop_terminates [OF con inv] obtain r where r: "AStar_loop g t ?init = Some r" ..
  from as_loop_partial [OF r con inv cov] r show ?thesis unfolding fp by blast
qed

lemma best_route_cheapest: "best_route g s t p \<Longrightarrow> cheapest_route g s t p"
  by (auto simp: best_route_def cheapest_route_def less_eq_prod_def)

lemma route_not_no_route: "is_route g s t q \<Longrightarrow> \<not> no_route g s t"
  by (auto simp: no_route_def)

lemma route_nonempty: "is_route g s t p \<Longrightarrow> p \<noteq> []"
  by (simp add: is_route_def)

lemma toll_grid_facts:
  "grid_contract 2 3 toll_grid" "costs_at_least 1 toll_grid" "costs_at_least 0 toll_grid"
  "is_route toll_grid (0, 0) (0, 2) [(0, 0), (0, 1), (0, 2)]"
  by (simp_all add: toll_grid_def rect_grid_contract costs_at_least_def tile_cost_rect_grid
      is_route_def nbrs_rect_grid in_bounds_def)

lemma detour_astar:
  "AStar_find_path detour_grid (0, 0) (0, 2) = Some (Inr [(0, 0), (0, 1), (0, 2)])"
  unfolding detour_grid_def by code_simp

lemma detour_bb:
  "BranchAndBound_find_path detour_grid (0, 0) (0, 2) = Some (Inr [(0, 0), (1, 0), (1, 1), (1, 2), (0, 2)])"
  unfolding detour_grid_def by code_simp

lemma detour_grid_facts:
  "grid_contract 2 3 detour_grid" "costs_at_least 0 detour_grid"
  "is_route detour_grid (0, 0) (0, 2) [(0, 0), (1, 0), (1, 1), (1, 2), (0, 2)]"
  "path_cost detour_grid [(0, 0), (1, 0), (1, 1), (1, 2), (0, 2)] = 0"
  "path_cost detour_grid [(0, 0), (0, 1), (0, 2)] = 1"
  by (simp_all add: detour_grid_def rect_grid_contract costs_at_least_def tile_cost_rect_grid
      is_route_def nbrs_rect_grid in_bounds_def path_cost_def)

section \<open>Lemmas: termination of the depth-first search, and returned paths\<close>

lemma dfs_inv_mono: "dfs_inv g s C st \<Longrightarrow> C \<subseteq> D \<Longrightarrow> dfs_inv g s D st"
  by (auto simp: dfs_inv_def)

lemma dfs_inv_init: "s \<in> C \<Longrightarrow> dfs_inv g s C ([s], {s})"
  by (simp add: dfs_inv_def)

lemma dfs_closed_init: "dfs_closed g s t ([s], {s})"
  by (simp add: dfs_closed_def)

lemma card_Diff_insert_less:
  assumes "finite C" "v \<in> C" "v \<notin> A"
  shows "card (C - insert v A) < card (C - A)"
proof -
  have "C - insert v A \<subset> C - A" using assms(2,3) by auto
  moreover have "finite (C - A)" using assms(1) by simp
  ultimately show ?thesis by (rule psubset_card_mono [rotated])
qed

lemma DFS_fuel_enough:
  assumes con: "grid_contract rows cols g"
  shows "dfs_inv g s (cells rows cols s) st \<Longrightarrow>
         2 * card (cells rows cols s - snd st) + length (fst st) \<le> n \<Longrightarrow>
         \<exists>p. DFS_fuel n g t st = Some (Inr p)"
proof (induction n arbitrary: st)
  case 0
  then show ?case by simp
next
  case (Suc n)
  obtain nodes visited where st: "st = (nodes, visited)" by (cases st)
  let ?C = "cells rows cols s"
  show ?case
  proof (cases "nodes \<noteq> [] \<and> last nodes \<noteq> t")
    case False
    then show ?thesis by (auto simp: st)
  next
    case True
    then have ne: "nodes \<noteq> []" by simp
    from DFS_step_no_error [OF con ne] obtain st' where step: "DFS_step g (nodes, visited) = Inr st'"
      by blast
    obtain nodes' visited' where st': "st' = (nodes', visited')" by (cases st')
    have clo: "set (nbrs g (last nodes)) \<subseteq> ?C"
      using contract_nbrs(1) [OF con] in_cells by blast
    have inv': "dfs_inv g s ?C st'"
      using Suc.prems(1) [unfolded st] ne step clo by (rule dfs_inv_step)
    have "2 * card (?C - visited') + length nodes' < 2 * card (?C - visited) + length nodes"
      using DFS_step_cases [OF step [unfolded st'] ne]
    proof (elim disjE conjE exE)
      assume "nodes' = butlast nodes" "visited' = visited"
      with ne show ?thesis by simp
    next
      fix v assume v: "v \<in> set (nbrs g (last nodes))" "v \<notin> visited"
        "nodes' = nodes @ [v]" "visited' = insert v visited"
      from v(1) clo have "v \<in> ?C" by blast
      with v(2) have "card (?C - insert v visited) < card (?C - visited)"
        by (intro card_Diff_insert_less finite_cells)
      then show ?thesis by (simp add: v(3,4))
    qed
    with Suc.prems(2) have "2 * card (?C - snd st') + length (fst st') \<le> n"
      by (simp add: st st')
    with inv' have "\<exists>p. DFS_fuel n g t st' = Some (Inr p)" by (rule Suc.IH)
    with True step show ?thesis by (simp add: st)
  qed
qed

lemma card_cells_minus: "card (cells rows cols s - {s}) \<le> rows * cols"
proof -
  have "cells rows cols s - {s} \<subseteq> {0 ..< int rows} \<times> {0 ..< int cols}"
    by (auto simp: cells_def)
  then have "card (cells rows cols s - {s}) \<le> card ({0 ..< int rows} \<times> {0 ..< int cols})"
    by (intro card_mono) simp_all
  then show ?thesis by (simp add: card_cartesian_product)
qed

lemma dfs_inv_route:
  "dfs_inv g s C (p, vis) \<Longrightarrow> p \<noteq> [] \<Longrightarrow> last p = t \<Longrightarrow> is_route g s t p"
  by (simp add: dfs_inv_def is_route_def)

lemma DFS_result:
  assumes con: "grid_contract rows cols g"
  shows "\<exists>n p. n \<le> 2 * (rows * cols) + 1 \<and>
           DFS_fuel n g t ([s], {s}) = Some (Inr p) \<and>
           DFS_find_path g s t = Some (Inr p) \<and>
           (p = [] \<or> is_route g s t p) \<and> (p = [] \<longleftrightarrow> no_route g s t)"
proof -
  let ?C = "cells rows cols s"
  let ?n = "2 * card (?C - {s}) + 1"
  have sC: "s \<in> ?C" by (simp add: cells_def)
  have inv: "dfs_inv g s ?C ([s], {s})" using sC by (rule dfs_inv_init)
  then have invU: "dfs_inv g s UNIV ([s], {s})" by (rule dfs_inv_mono) simp
  from DFS_fuel_enough [OF con inv, of ?n t] obtain p where
    p: "DFS_fuel ?n g t ([s], {s}) = Some (Inr p)" by auto
  then have fp: "DFS_find_path g s t = Some (Inr p)"
    unfolding DFS_find_path_def by (rule DFS_fuel_loop)
  from DFS_fuel_inv [OF p invU] obtain vis where
    q: "p = [] \<or> last p = t" "dfs_inv g s UNIV (p, vis)" by blast
  then have r: "p = [] \<or> is_route g s t p" using dfs_inv_route by blast
  have "no_route g s t" if "p = []"
  proof -
    from p that have "DFS_fuel ?n g t ([s], {s}) = Some (Inr [])" by simp
    from DFS_fuel_complete [OF this invU dfs_closed_init] show ?thesis
      using dfs_closed_empty by blast
  qed
  moreover have "p = []" if "no_route g s t" using r that by (auto simp: no_route_def)
  moreover have "?n \<le> 2 * (rows * cols) + 1" using card_cells_minus [of rows cols s] by simp
  ultimately show ?thesis using p fp r by blast
qed

lemma linked_adjacent4: "linked g p \<Longrightarrow> adjacent_neighbors g \<Longrightarrow> adjacent4 p"
proof (induction g p rule: linked.induct)
  case (1 g a b p)
  from "1.prems" have "b \<in> set (nbrs g a)" by simp
  with "1.prems"(2) have "manhattan a b = 1"
    by (cases a) (auto simp: adjacent_neighbors_def nbrs_def)
  with 1 show ?case by simp
qed simp_all

lemma bb_paths_step:
  assumes inv: "\<forall>n \<in> set nodes. path_ok g s UNIV (fst n)" and b: "b \<in> set nodes"
  shows "\<forall>n \<in> set (remove1 b nodes @ bb_expand g b). path_ok g s UNIV (fst n)"
proof
  fix n assume n: "n \<in> set (remove1 b nodes @ bb_expand g b)"
  show "path_ok g s UNIV (fst n)"
  proof (cases "n \<in> set (remove1 b nodes)")
    case True
    then have "n \<in> set nodes" using set_remove1_subset by fast
    with inv show ?thesis by blast
  next
    case False
    with n have "fst n \<in> fst ` set (bb_expand g b)" by simp
    then obtain v where v: "v \<in> set (nbrs g (last (fst b)))" "v \<notin> set (fst b)" "fst n = fst b @ [v]"
      unfolding fst_bb_expand by blast
    from inv b have "path_ok g s UNIV (fst b)" by blast
    then show ?thesis unfolding v(3) using v(1,2) by (rule path_ok_snoc) simp
  qed
qed

lemma bb_loop_paths:
  assumes run: "BranchAndBound_loop g t nodes = Some r"
    and inv: "\<forall>n \<in> set nodes. path_ok g s UNIV (fst n)"
  shows "\<exists>p. r = Inr p \<and> (p = [] \<or> is_route g s t p)"
  using inv
proof (induction g t nodes r rule: BranchAndBound_loop.raw_induct)
  case (1 f g t nodes r)
  show ?case
  proof (cases nodes)
    case Nil
    with "1.hyps" show ?thesis by auto
  next
    case (Cons n ns)
    define b where "b = py_min bb_key n ns"
    have b: "b \<in> set nodes" unfolding b_def Cons by (rule py_min_mem)
    with "1.prems" have ok: "path_ok g s UNIV (fst b)" by blast
    then have ne: "fst b \<noteq> []" by (simp add: path_ok_def)
    from "1.hyps" have step:
      "(if last (fst b) = t then Some (Inr (fst b))
        else f g t (remove1 b nodes @ bb_expand g b)) = Some r"
      unfolding bb_body_unfold [OF Cons b_def] by (simp add: ne)
    show ?thesis
    proof (cases "last (fst b) = t")
      case True
      with step ok show ?thesis by (auto intro: path_ok_route)
    next
      case False
      with step have "f g t (remove1 b nodes @ bb_expand g b) = Some r" by simp
      then show ?thesis using bb_paths_step [OF "1.prems" b] by (rule "1.IH")
    qed
  qed
qed fact

lemma as_paths_step:
  assumes inv: "\<forall>n \<in> set nodes. path_ok g s UNIV (fst n)" and b: "b \<in> set nodes"
  shows "\<forall>n \<in> set (remove1 b nodes @ as_expand g t b). path_ok g s UNIV (fst n)"
proof
  fix n assume n: "n \<in> set (remove1 b nodes @ as_expand g t b)"
  show "path_ok g s UNIV (fst n)"
  proof (cases "n \<in> set (remove1 b nodes)")
    case True
    then have "n \<in> set nodes" using set_remove1_subset by fast
    with inv show ?thesis by blast
  next
    case False
    with n have "fst n \<in> fst ` set (as_expand g t b)" by simp
    then obtain v where v: "v \<in> set (nbrs g (last (fst b)))" "v \<notin> set (fst b)" "fst n = fst b @ [v]"
      unfolding fst_as_expand by blast
    from inv b have "path_ok g s UNIV (fst b)" by blast
    then show ?thesis unfolding v(3) using v(1,2) by (rule path_ok_snoc) simp
  qed
qed

lemma as_loop_paths:
  assumes run: "AStar_loop g t nodes = Some r"
    and inv: "\<forall>n \<in> set nodes. path_ok g s UNIV (fst n)"
  shows "\<exists>p. r = Inr p \<and> (p = [] \<or> is_route g s t p)"
  using inv
proof (induction g t nodes r rule: AStar_loop.raw_induct)
  case (1 f g t nodes r)
  show ?case
  proof (cases nodes)
    case Nil
    with "1.hyps" show ?thesis by auto
  next
    case (Cons n ns)
    define b where "b = py_min as_key n ns"
    have b: "b \<in> set nodes" unfolding b_def Cons by (rule py_min_mem)
    with "1.prems" have ok: "path_ok g s UNIV (fst b)" by blast
    then have ne: "fst b \<noteq> []" by (simp add: path_ok_def)
    from "1.hyps" have step:
      "(if last (fst b) = t then Some (Inr (fst b))
        else f g t (remove1 b nodes @ as_expand g t b)) = Some r"
      unfolding as_body_unfold [OF Cons b_def] by (simp add: ne)
    show ?thesis
    proof (cases "last (fst b) = t")
      case True
      with step ok show ?thesis by (auto intro: path_ok_route)
    next
      case False
      with step have "f g t (remove1 b nodes @ as_expand g t b) = Some r" by simp
      then show ?thesis using as_paths_step [OF "1.prems" b] by (rule "1.IH")
    qed
  qed
qed fact

lemma DFS_returned:
  assumes "DFS_find_path g s t = Some (Inr p)" "p \<noteq> []"
  shows "is_route g s t p \<and> adjacent4 p"
proof -
  from assms(1) obtain n where n: "DFS_fuel n g t ([s], {s}) = Some (Inr p)"
    unfolding DFS_find_path_def using DFS_loop_fuel by blast
  have "dfs_inv g s UNIV ([s], {s})" by (rule dfs_inv_init) simp
  from DFS_fuel_inv [OF n this] assms(2) obtain vis where
    "last p = t" "dfs_inv g s UNIV (p, vis)" by blast
  with assms(2) show ?thesis by (simp add: dfs_inv_def is_route_def)
qed

lemma bb_returned:
  assumes "BranchAndBound_find_path g s t = Some (Inr p)" "p \<noteq> []"
  shows "is_route g s t p"
proof -
  from assms(1) have "BranchAndBound_loop g t [([s], tile_cost g s)] = Some (Inr p)"
    by (simp add: BranchAndBound_find_path_def tile_cost_def case_prod_unfold)
  from bb_loop_paths [OF this, of s] assms(2) show ?thesis by (simp add: path_ok_def)
qed

lemma as_returned:
  assumes "AStar_find_path g s t = Some (Inr p)" "p \<noteq> []"
  shows "is_route g s t p"
proof -
  from assms(1) have "AStar_loop g t [([s], tile_cost g s, manhattan s t)] = Some (Inr p)"
    by (simp add: AStar_find_path_def tile_cost_def case_prod_unfold)
  from as_loop_paths [OF this, of s] assms(2) show ?thesis by (simp add: path_ok_def)
qed

section \<open>Lemmas: runs on the concrete grids\<close>

lemma contract_adjacent: "grid_contract rows cols g \<Longrightarrow> adjacent_neighbors g"
  by (simp add: grid_contract_def adjacent_neighbors_def)

lemma open_grid_contract: "grid_contract 3 3 (open_grid u)"
  unfolding open_grid_def by (rule rect_grid_contract)

lemma walled_grid_contract: "grid_contract 1 4 walled_grid"
  unfolding walled_grid_def by (rule rect_grid_contract)

lemma open_grid_runs:
  "DFS_find_path (open_grid 1) (0, 0) (2, 2) = Some (Inr [(0, 0), (0, 1), (0, 2), (1, 2), (2, 2)])"
  "BranchAndBound_find_path (open_grid 1) (0, 0) (2, 2) = Some (Inr [(0, 0), (1, 0), (2, 0), (2, 1), (2, 2)])"
  "AStar_find_path (open_grid 1) (0, 0) (2, 2) = Some (Inr [(0, 0), (1, 0), (2, 0), (2, 1), (2, 2)])"
  unfolding open_grid_def by code_simp+

lemma walled_grid_run:
  "DFS_find_path walled_grid (0, 0) (0, 3) = Some (Inr [])"
  unfolding walled_grid_def by code_simp

section \<open>Lemmas: the depth-first search reads only the set of neighbours\<close>

lemma Tile_eqI: "pos a = pos b \<Longrightarrow> cost a = cost b \<Longrightarrow> a = b" for a b :: Tile
  by simp

lemma dfs_key_inj:
  assumes "\<forall>t \<in> S. directions (fst (pos t) - r, snd (pos t) - c) \<noteq> None"
  shows "inj_on (dfs_key r c) S"
proof (rule inj_onI)
  fix a b assume a: "a \<in> S" and b: "b \<in> S" and e: "dfs_key r c a = dfs_key r c b"
  from assms a obtain k where k: "directions (fst (pos a) - r, snd (pos a) - c) = Some k" by auto
  from assms b obtain k' where k': "directions (fst (pos b) - r, snd (pos b) - c) = Some k'" by auto
  from e k k' have "k = k'" "cost a = cost b" by (simp_all add: dfs_key_def)
  with k' have "directions (fst (pos b) - r, snd (pos b) - c) = Some k" by simp
  with k have "(fst (pos a) - r, snd (pos a) - c) = (fst (pos b) - r, snd (pos b) - c)"
    by (rule directions_inj)
  then have "pos a = pos b" by (simp add: prod_eq_iff)
  then show "a = b" using \<open>cost a = cost b\<close> by (rule Tile_eqI)
qed

lemma hd_sort_key_set:
  fixes f :: "'a \<Rightarrow> 'k::linorder"
  assumes "set xs = set ys" "xs \<noteq> []" "inj_on f (set xs)"
  shows "hd (sort_key f xs) = hd (sort_key f ys)"
proof -
  from assms(1,2) have ys: "ys \<noteq> []" by auto
  let ?a = "hd (sort_key f xs)" and ?b = "hd (sort_key f ys)"
  have a: "?a \<in> set xs" using assms(2) by (rule hd_sort_key)
  have b: "?b \<in> set xs" using hd_sort_key(1) [OF ys, of f] assms(1) by simp
  have "f ?a \<le> f ?b" using assms(2) b by (rule hd_sort_key)
  moreover have "f ?b \<le> f ?a" using ys a [unfolded assms(1)] by (rule hd_sort_key)
  ultimately have "f ?a = f ?b" by simp
  with assms(3) a b show ?thesis by (auto dest: inj_onD)
qed

lemma not_ex_None: "(\<not> (\<exists>t \<in> S. f t = None)) = (\<forall>t \<in> S. f t \<noteq> None)"
  by simp

lemma DFS_step_empty: "DFS_step g ([], visited) = Inl IndexError"
  by (simp add: DFS_step_def case_prod_unfold Let_def)

lemma DFS_step_cong:
  assumes same: "\<forall>r c. set (neighbors4 g r c) = set (neighbors4 g' r c)"
  shows "DFS_step g st = DFS_step g' st"
proof -
  obtain nodes visited where st: "st = (nodes, visited)" by (cases st)
  show ?thesis
  proof (cases "nodes = []")
    case True
    then show ?thesis by (simp add: st DFS_step_empty)
  next
    case False
    let ?r = "fst (last nodes)" and ?c = "snd (last nodes)"
    let ?u = "filter (\<lambda>tile. pos tile \<notin> visited) (neighbors4 g ?r ?c)"
    let ?u' = "filter (\<lambda>tile. pos tile \<notin> visited) (neighbors4 g' ?r ?c)"
    have su: "set ?u = set ?u'" using same by simp
    show ?thesis
    proof (cases "\<exists>t \<in> set ?u. directions (fst (pos t) - ?r, snd (pos t) - ?c) = None")
      case True
      then have "\<exists>t \<in> set ?u'. directions (fst (pos t) - ?r, snd (pos t) - ?c) = None"
        unfolding su .
      with True False show ?thesis
        unfolding st DFS_step_unfold [OF False] Let_def by simp
    next
      case nd: False
      then have nd': "\<not> (\<exists>t \<in> set ?u'. directions (fst (pos t) - ?r, snd (pos t) - ?c) = None)"
        unfolding su .
      show ?thesis
      proof (cases "?u = []")
        case True
        with su have "?u' = []" by (metis set_empty)
        with True nd nd' show ?thesis
          unfolding st DFS_step_unfold [OF False] Let_def by simp
      next
        case ne: False
        with su have ne': "?u' \<noteq> []" by (metis set_empty)
        from nd have "\<forall>t \<in> set ?u. directions (fst (pos t) - ?r, snd (pos t) - ?c) \<noteq> None"
          unfolding not_ex_None .
        then have "inj_on (dfs_key ?r ?c) (set ?u)" by (rule dfs_key_inj)
        with su ne have "hd (sort_key (dfs_key ?r ?c) ?u) = hd (sort_key (dfs_key ?r ?c) ?u')"
          by (intro hd_sort_key_set)
        with ne ne' nd nd' show ?thesis
          unfolding st DFS_step_unfold [OF False] Let_def by simp
      qed
    qed
  qed
qed

lemma DFS_fuel_cong:
  assumes "\<forall>r c. set (neighbors4 g r c) = set (neighbors4 g' r c)"
  shows "DFS_fuel n g t st = DFS_fuel n g' t st"
proof (induction n arbitrary: st)
  case 0
  show ?case by simp
next
  case (Suc n)
  have e: "DFS_step g st = DFS_step g' st" using assms by (rule DFS_step_cong)
  show ?case
  proof (cases "DFS_step g' st")
    case (Inl a)
    then show ?thesis by (simp add: e)
  next
    case (Inr b)
    then show ?thesis by (simp add: e Suc.IH)
  qed
qed

lemma DFS_loop_cong:
  assumes "\<forall>r c. set (neighbors4 g r c) = set (neighbors4 g' r c)"
  shows "DFS_loop g t st = DFS_loop g' t st"
proof -
  have eq: "DFS_loop g t st = Some r \<longleftrightarrow> DFS_loop g' t st = Some r" for r
    by (simp only: DFS_loop_iff_fuel DFS_fuel_cong [OF assms])
  show ?thesis
  proof (cases "DFS_loop g t st")
    case None
    show ?thesis
    proof (cases "DFS_loop g' t st")
      case None
      with \<open>DFS_loop g t st = None\<close> show ?thesis by simp
    next
      case (Some r)
      with eq [of r] None show ?thesis by simp
    qed
  next
    case (Some r)
    with eq [of r] show ?thesis by simp
  qed
qed

lemma flip_grid_same: "\<forall>r c. set (neighbors4 g r c) = set (neighbors4 (flip_grid g) r c)"
  by (simp add: flip_grid_def)

lemma flip_grid_differs:
  "neighbors4 (open_grid 1) 1 1 \<noteq> neighbors4 (flip_grid (open_grid 1)) 1 1"
  by (simp add: flip_grid_def open_grid_def rect_grid_def in_bounds_def)

section \<open>Lemmas: the greedy strategy\<close>

lemma greedy_steps_snoc:
  "greedy_steps g goal (p @ [v]) =
     (greedy_steps g goal p \<and>
      (p = [] \<or> (v \<in> set (nbrs g (last p)) \<and>
                 (\<forall>w \<in> set (nbrs g (last p)). manhattan v goal \<le> manhattan w goal))))"
  by (induction g goal p rule: greedy_steps.induct) auto

lemma min_list_props:
  fixes xs :: "int list"
  assumes "xs \<noteq> []"
  shows "min_list xs \<in> set xs" "x \<in> set xs \<Longrightarrow> min_list xs \<le> x"
proof -
  have m: "min_list xs = Min (set xs)" using assms by (rule min_list_Min)
  show "min_list xs \<in> set xs" unfolding m using assms by (intro Min_in) simp_all
  show "x \<in> set xs \<Longrightarrow> min_list xs \<le> x" unfolding m by (intro Min_le) simp_all
qed

lemma ExampleAgent_step_unfold:
  assumes "nodes \<noteq> []" "neighbors4 g (fst (last nodes)) (snd (last nodes)) \<noteq> []"
  shows "ExampleAgent_step g goal k nodes =
    (let neighbors = neighbors4 g (fst (last nodes)) (snd (last nodes));
         min_dist = min_list (map (\<lambda>t. manhattan (pos t) goal) neighbors);
         best_tiles = filter (\<lambda>tile. manhattan (pos tile) goal = min_dist) neighbors
     in Inr (nodes @ [pos (best_tiles ! (k mod length best_tiles))]))"
  using assms by (simp add: ExampleAgent_step_def case_prod_unfold Let_def)

lemma ExampleAgent_step_error:
  "nodes = [] \<or> nbrs g (last nodes) = [] \<Longrightarrow> \<exists>e. ExampleAgent_step g goal k nodes = Inl e"
  by (auto simp: ExampleAgent_step_def case_prod_unfold Let_def nbrs_def)

lemma ExampleAgent_step_Inr:
  assumes "nodes \<noteq> []" "nbrs g (last nodes) \<noteq> []"
  shows "\<exists>v. ExampleAgent_step g goal k nodes = Inr (nodes @ [v]) \<and> v \<in> set (nbrs g (last nodes)) \<and>
             (\<forall>w \<in> set (nbrs g (last nodes)). manhattan v goal \<le> manhattan w goal)"
proof -
  let ?nb = "neighbors4 g (fst (last nodes)) (snd (last nodes))"
  let ?ds = "map (\<lambda>t. manhattan (pos t) goal) ?nb"
  let ?m = "min_list ?ds"
  let ?best = "filter (\<lambda>tile. manhattan (pos tile) goal = ?m) ?nb"
  let ?bt = "?best ! (k mod length ?best)"
  from assms(2) have nb: "?nb \<noteq> []" by (simp add: nbrs_def)
  then have ds: "?ds \<noteq> []" by simp
  from min_list_props(1) [OF ds] obtain t0 where "t0 \<in> set ?nb" "manhattan (pos t0) goal = ?m"
    by auto
  then have "t0 \<in> set ?best" by simp
  then have "?best \<noteq> []" by (metis empty_iff empty_set)
  then have "k mod length ?best < length ?best" by simp
  then have "?bt \<in> set ?best" by (rule nth_mem)
  then have bt: "?bt \<in> set ?nb" "manhattan (pos ?bt) goal = ?m" by simp_all
  have le: "manhattan (pos ?bt) goal \<le> manhattan w goal" if "w \<in> set (nbrs g (last nodes))" for w
  proof -
    from that have "manhattan w goal \<in> set ?ds" by (auto simp: nbrs_def)
    from min_list_props(2) [OF ds this] show ?thesis unfolding bt(2) .
  qed
  have "ExampleAgent_step g goal k nodes = Inr (nodes @ [pos ?bt])"
    unfolding ExampleAgent_step_unfold [OF assms(1) nb] Let_def ..
  moreover from bt(1) have "pos ?bt \<in> set (nbrs g (last nodes))" by (simp add: nbrs_def)
  ultimately show ?thesis using le by blast
qed

lemma ExampleAgent_step_cases:
  assumes "ExampleAgent_step g goal k nodes = Inr nodes'"
  shows "nodes \<noteq> [] \<and> (\<exists>v. nodes' = nodes @ [v] \<and> v \<in> set (nbrs g (last nodes)) \<and>
             (\<forall>w \<in> set (nbrs g (last nodes)). manhattan v goal \<le> manhattan w goal))"
proof -
  from assms ExampleAgent_step_error [of nodes g goal k]
  have ne: "nodes \<noteq> []" "nbrs g (last nodes) \<noteq> []" by auto
  from ExampleAgent_step_Inr [OF ne, of goal k] assms ne(1) show ?thesis by auto
qed

lemma greedy_loop_partial:
  assumes run: "ExampleAgent_loop g goal rnd i nodes = Some r"
    and res: "r = Inr p"
    and inv: "nodes \<noteq> []" "hd nodes = s" "greedy_steps g goal nodes"
  shows "p \<noteq> [] \<and> hd p = s \<and> last p = goal \<and> greedy_steps g goal p"
  using res inv
proof (induction g goal rnd i nodes r rule: ExampleAgent_loop.raw_induct)
  case (1 f g goal rnd i nodes r)
  show ?case
  proof (cases "last nodes \<noteq> goal")
    case False
    with "1.hyps" "1.prems" show ?thesis by auto
  next
    case True
    with "1.hyps" "1.prems"(1,2) obtain nodes' where
      st: "ExampleAgent_step g goal (rnd i) nodes = Inr nodes'"
      and run': "f g goal rnd (Suc i) nodes' = Some r"
      by (auto split: sum.splits)
    from ExampleAgent_step_cases [OF st] obtain v where
      v: "nodes' = nodes @ [v]" "v \<in> set (nbrs g (last nodes))"
      "\<forall>w \<in> set (nbrs g (last nodes)). manhattan v goal \<le> manhattan w goal" by blast
    have "nodes' \<noteq> []" "hd nodes' = s" "greedy_steps g goal nodes'"
      using "1.prems"(2,3,4) v by (simp_all add: greedy_steps_snoc)
    with run' "1.prems"(1) show ?thesis by (intro "1.IH")
  qed
qed fact

lemma greedy_open_run:
  "ExampleAgent_find_path (open_grid 1) (0, 0) (2, 2) first_draw =
     Some (Inr [(0, 0), (1, 0), (2, 0), (2, 1), (2, 2)])"
  unfolding open_grid_def by code_simp

section \<open>Lemmas: the greedy strategy inside a closed set of cells\<close>

lemma greedy_trapped_loop:
  assumes run: "ExampleAgent_loop g goal rnd i nodes = Some r"
    and clo: "\<forall>v \<in> V. set (nbrs g v) \<subseteq> V \<and> nbrs g v \<noteq> []"
    and goal: "goal \<notin> V"
    and inv: "nodes \<noteq> []" "last nodes \<in> V"
  shows False
  using clo goal inv
proof (induction g goal rnd i nodes r rule: ExampleAgent_loop.raw_induct)
  case (1 f g goal rnd i nodes r)
  from "1.prems"(2,4) have ng: "last nodes \<noteq> goal" by blast
  from "1.prems"(1,4) have nb: "nbrs g (last nodes) \<noteq> []" by blast
  from ExampleAgent_step_Inr [OF "1.prems"(3) nb, of goal "rnd i"] obtain v where
    v: "ExampleAgent_step g goal (rnd i) nodes = Inr (nodes @ [v])" "v \<in> set (nbrs g (last nodes))"
    by blast
  from "1.hyps" "1.prems"(3) ng v(1) have run': "f g goal rnd (Suc i) (nodes @ [v]) = Some r"
    by simp
  from v(2) "1.prems"(1,4) have b: "last (nodes @ [v]) \<in> V" by auto
  have a: "nodes @ [v] \<noteq> []" by simp
  show ?case by (rule "1.IH" [OF run' "1.prems"(1,2) a b])
qed fact

lemma greedy_trapped_None:
  assumes "\<forall>v \<in> V. set (nbrs g v) \<subseteq> V \<and> nbrs g v \<noteq> []" "goal \<notin> V" "s \<in> V"
  shows "ExampleAgent_find_path g s goal rnd = None"
proof (cases "ExampleAgent_find_path g s goal rnd")
  case None
  then show ?thesis .
next
  case (Some r)
  then have "ExampleAgent_loop g goal rnd 0 [s] = Some r" by (simp add: ExampleAgent_find_path_def)
  from greedy_trapped_loop [OF this assms(1,2)] assms(3) show ?thesis by simp
qed

lemma greedy_trapped_iter:
  assumes clo: "\<forall>v \<in> V. set (nbrs g v) \<subseteq> V \<and> nbrs g v \<noteq> []" and goal: "goal \<notin> V"
  shows "nodes \<noteq> [] \<Longrightarrow> last nodes \<in> V \<Longrightarrow>
         \<exists>nodes'. ExampleAgent_iter g goal rnd i n nodes = Inr nodes' \<and> nodes' \<noteq> [] \<and> last nodes' \<in> V"
proof (induction n arbitrary: i nodes)
  case 0
  then show ?case by simp
next
  case (Suc n)
  from Suc.prems(2) goal have ng: "last nodes \<noteq> goal" by blast
  from clo Suc.prems(2) have nb: "nbrs g (last nodes) \<noteq> []" by blast
  from ExampleAgent_step_Inr [OF Suc.prems(1) nb, of goal "rnd i"] obtain v where
    v: "ExampleAgent_step g goal (rnd i) nodes = Inr (nodes @ [v])" "v \<in> set (nbrs g (last nodes))"
    by blast
  from v(2) clo Suc.prems(2) have b: "last (nodes @ [v]) \<in> V" by auto
  have a: "nodes @ [v] \<noteq> []" by simp
  have "\<exists>nodes'. ExampleAgent_iter g goal rnd (Suc i) n (nodes @ [v]) = Inr nodes' \<and>
               nodes' \<noteq> [] \<and> last nodes' \<in> V"
    using a b by (rule Suc.IH)
  with Suc.prems(1) ng v(1) show ?case by simp
qed

lemma walled_grid_trap:
  "\<forall>v \<in> {(0, 0), (0, 1)}. set (nbrs walled_grid v) \<subseteq> {(0, 0), (0, 1)} \<and> nbrs walled_grid v \<noteq> []"
  by (simp add: walled_grid_def nbrs_rect_grid in_bounds_def)

lemma walled_iter_run:
  "ExampleAgent_iter walled_grid (0, 3) first_draw 0 3 [(0, 0)] = Inr [(0, 0), (0, 1), (0, 0), (0, 1)]"
  unfolding walled_grid_def by code_simp

section \<open>Claims that need no invariant\<close>

text \<open>
  C10.  Whenever start equals goal, each of the four strategies returns at once (the
  result is \<open>Some\<close>, so the loop is left) the singleton path that holds only the start
  cell, on every grid.  The empty "not found" path is never the result.
\<close>

theorem C10_start_is_goal:
  "find_path ExampleAgent g s s rnd = Some (Inr [s]) \<and>
   find_path DFSAgent g s s rnd = Some (Inr [s]) \<and>
   find_path BranchAndBoundAgent g s s rnd = Some (Inr [s]) \<and>
   find_path AStar g s s rnd = Some (Inr [s])"
  by (simp add: ExampleAgent_find_path_def ExampleAgent_loop.simps DFS_find_path_def
      DFS_loop.simps BranchAndBound_find_path_def BranchAndBound_loop.simps
      AStar_find_path_def AStar_loop.simps split: prod.splits)

theorem C10_start_is_goal_witness:
  "find_path ExampleAgent (rect_grid 3 3 (\<lambda>p. 1) []) (1, 1) (1, 1) (\<lambda>i. 0) = Some (Inr [(1, 1)]) \<and>
   find_path DFSAgent (rect_grid 3 3 (\<lambda>p. 1) []) (1, 1) (1, 1) (\<lambda>i. 0) = Some (Inr [(1, 1)]) \<and>
   find_path BranchAndBoundAgent (rect_grid 3 3 (\<lambda>p. 1) []) (1, 1) (1, 1) (\<lambda>i. 0) = Some (Inr [(1, 1)]) \<and>
   find_path AStar (rect_grid 3 3 (\<lambda>p. 1) []) (1, 1) (1, 1) (\<lambda>i. 0) = Some (Inr [(1, 1)])"
  by (rule C10_start_is_goal)

text \<open>
  C5.  \<open>create_agent\<close> fails exactly on the names that are not registered, with a
  \<^verbatim>\<open>ValueError\<close> whose message lists the four registered names; on a registered name
  it returns the strategy of that name.
\<close>

theorem C5_create_agent:
  "create_agent nm =
     (if nm = ''Example'' then Inr ExampleAgent
      else if nm = ''DFS'' then Inr DFSAgent
      else if nm = ''BranchAndBound'' then Inr BranchAndBoundAgent
      else if nm = ''AStar'' then Inr AStar
      else Inl (ValueError,
                ''Unknown agent '' @ [CHR 0x27] @ nm @ [CHR 0x27] @
                ''. Available: Example, DFS, BranchAndBound, AStar''))
   \<and> ((\<exists>a. create_agent nm = Inr a \<and> name a = nm) =
        (nm \<in> {''Example'', ''DFS'', ''BranchAndBound'', ''AStar''}))"
  by (simp add: create_agent_def AGENTS_def)

theorem C5_create_agent_witness:
  "create_agent ''Nope'' =
     Inl (ValueError, ''Unknown agent '' @ [CHR 0x27] @ ''Nope'' @ [CHR 0x27] @
                      ''. Available: Example, DFS, BranchAndBound, AStar'')
   \<and> create_agent ''AStar'' = Inr AStar"
  using C5_create_agent [of "''Nope''"] C5_create_agent [of "''AStar''"] by simp

section \<open>Claims about branch and bound and A*\<close>

text \<open>
  C2, as amended.  On a finite grid that keeps the contract and has a route from start
  to goal: when every entry cost is non-negative, branch and bound returns a route whose
  total cost is least among all simple routes; when every entry cost is at least 1
  (which makes the Manhattan distance admissible), A* returns such a route too.
\<close>

theorem C2_optimal_cost:
  assumes "grid_contract rows cols g" and "is_route g s t q"
  shows "(costs_at_least 0 g \<longrightarrow>
            (\<exists>p. BranchAndBound_find_path g s t = Some (Inr p) \<and> cheapest_route g s t p)) \<and>
         (costs_at_least 1 g \<longrightarrow>
            (\<exists>p. AStar_find_path g s t = Some (Inr p) \<and> cheapest_route g s t p))"
proof -
  from assms(2) have nr: "\<not> no_route g s t" by (rule route_not_no_route)
  from bb_find_path_result [OF assms(1), of s t] nr
  have "\<exists>p. BranchAndBound_find_path g s t = Some (Inr p) \<and>
            (costs_at_least 0 g \<longrightarrow> best_route g s t p)" by blast
  moreover from as_find_path_result [OF assms(1), of s t] nr
  have "\<exists>p. AStar_find_path g s t = Some (Inr p) \<and>
            (costs_at_least 1 g \<longrightarrow> cheapest_route g s t p)" by blast
  ultimately show ?thesis using best_route_cheapest by blast
qed

text \<open>C2 at \<open>toll_grid\<close>, from \<open>(0, 0)\<close> to \<open>(0, 2)\<close>.\<close>

theorem C2_optimal_cost_witness:
  "grid_contract 2 3 toll_grid \<and> costs_at_least 0 toll_grid \<and> costs_at_least 1 toll_grid \<and>
   is_route toll_grid (0, 0) (0, 2) [(0, 0), (0, 1), (0, 2)] \<and>
   (\<exists>p. BranchAndBound_find_path toll_grid (0, 0) (0, 2) = Some (Inr p) \<and>
        cheapest_route toll_grid (0, 0) (0, 2) p) \<and>
   (\<exists>p. AStar_find_path toll_grid (0, 0) (0, 2) = Some (Inr p) \<and>
        cheapest_route toll_grid (0, 0) (0, 2) p)"
  using C2_optimal_cost [OF toll_grid_facts(1) toll_grid_facts(4)] toll_grid_facts by blast

text \<open>
  C2 as stated fails for A*: on \<open>detour_grid\<close>, whose costs are non-negative, the free
  route through the second row exists, and A* returns the direct path of cost 1.
\<close>

theorem C2_counterexample:
  "grid_contract 2 3 detour_grid \<and> costs_at_least 0 detour_grid \<and>
   is_route detour_grid (0, 0) (0, 2) [(0, 0), (1, 0), (1, 1), (1, 2), (0, 2)] \<and>
   path_cost detour_grid [(0, 0), (1, 0), (1, 1), (1, 2), (0, 2)] = 0 \<and>
   AStar_find_path detour_grid (0, 0) (0, 2) = Some (Inr [(0, 0), (0, 1), (0, 2)]) \<and>
   path_cost detour_grid [(0, 0), (0, 1), (0, 2)] = 1 \<and>
   \<not> cheapest_route detour_grid (0, 0) (0, 2) [(0, 0), (0, 1), (0, 2)]"
proof -
  have "\<not> cheapest_route detour_grid (0, 0) (0, 2) [(0, 0), (0, 1), (0, 2)]"
    using detour_grid_facts(3,4,5) by (auto simp: cheapest_route_def)
  then show ?thesis using detour_grid_facts detour_astar by simp
qed

text \<open>
  C3, as amended.  On a finite grid that keeps the contract both strategies return, each
  returns the empty path exactly when there is no route, and when every entry cost is at
  least 1 the two returned paths have the same total cost.
\<close>

theorem C3_same_cost:
  assumes "grid_contract rows cols g"
  shows "\<exists>p p'. BranchAndBound_find_path g s t = Some (Inr p) \<and>
                AStar_find_path g s t = Some (Inr p') \<and>
                (p = [] \<longleftrightarrow> no_route g s t) \<and> (p' = [] \<longleftrightarrow> no_route g s t) \<and>
                (costs_at_least 1 g \<longrightarrow> path_cost g p = path_cost g p')"
proof -
  from bb_find_path_result [OF assms, of s t] obtain p where p:
    "BranchAndBound_find_path g s t = Some (Inr p)"
    "(p = [] \<and> no_route g s t) \<or> (is_route g s t p \<and> (costs_at_least 0 g \<longrightarrow> best_route g s t p))"
    by blast
  from as_find_path_result [OF assms, of s t] obtain p' where p':
    "AStar_find_path g s t = Some (Inr p')"
    "(p' = [] \<and> no_route g s t) \<or> (is_route g s t p' \<and> (costs_at_least 1 g \<longrightarrow> cheapest_route g s t p'))"
    by blast
  have e: "p = [] \<longleftrightarrow> no_route g s t" using p(2) route_not_no_route route_nonempty by blast
  have e': "p' = [] \<longleftrightarrow> no_route g s t" using p'(2) route_not_no_route route_nonempty by blast
  have "path_cost g p = path_cost g p'" if c1: "costs_at_least 1 g"
  proof (cases "no_route g s t")
    case True
    with e e' show ?thesis by simp
  next
    case False
    from c1 have c0: "costs_at_least 0 g" by (auto simp: costs_at_least_def intro: order_trans [of 0 1])
    from False p(2) c0 have "cheapest_route g s t p" using best_route_cheapest by blast
    moreover from False p'(2) c1 have "cheapest_route g s t p'" by blast
    ultimately show ?thesis by (auto simp: cheapest_route_def intro: antisym)
  qed
  with p(1) p'(1) e e' show ?thesis by blast
qed

text \<open>C3 at \<open>toll_grid\<close>, from \<open>(0, 0)\<close> to \<open>(0, 2)\<close>.\<close>

theorem C3_same_cost_witness:
  "grid_contract 2 3 toll_grid \<and> costs_at_least 1 toll_grid \<and>
   (\<exists>p p'. BranchAndBound_find_path toll_grid (0, 0) (0, 2) = Some (Inr p) \<and>
           AStar_find_path toll_grid (0, 0) (0, 2) = Some (Inr p') \<and>
           path_cost toll_grid p = path_cost toll_grid p')"
  using C3_same_cost [OF toll_grid_facts(1), of "(0, 0)" "(0, 2)"] toll_grid_facts(1,2) by blast

text \<open>
  C3 as stated fails: on \<open>detour_grid\<close>, whose costs are non-negative, branch and bound
  returns the free route and A* the direct path of cost 1.
\<close>

theorem C3_counterexample:
  "grid_contract 2 3 detour_grid \<and> costs_at_least 0 detour_grid \<and>
   BranchAndBound_find_path detour_grid (0, 0) (0, 2) = Some (Inr [(0, 0), (1, 0), (1, 1), (1, 2), (0, 2)]) \<and>
   AStar_find_path detour_grid (0, 0) (0, 2) = Some (Inr [(0, 0), (0, 1), (0, 2)]) \<and>
   path_cost detour_grid [(0, 0), (1, 0), (1, 1), (1, 2), (0, 2)] \<noteq>
   path_cost detour_grid [(0, 0), (0, 1), (0, 2)]"
  using detour_grid_facts detour_astar detour_bb by simp

section \<open>Claims about the shape of returned paths, and about the depth-first search\<close>

text \<open>
  C1.  A non-empty path returned by the DFS, branch-and-bound or A* strategy starts at
  the start cell, ends at the goal and repeats no coordinate; every consecutive pair of
  it is 4-adjacent.  For DFS the adjacency is enforced by the strategy itself (the lookup
  in \<open>directions\<close>); branch and bound and A* take each step from \<open>neighbors4\<close>, so
  for them it rests on the grid returning adjacent tiles.
\<close>

theorem C1_returned_path:
  "(DFS_find_path g s t = Some (Inr p) \<and> p \<noteq> [] \<longrightarrow>
      hd p = s \<and> last p = t \<and> adjacent4 p \<and> distinct p) \<and>
   (BranchAndBound_find_path g s t = Some (Inr p) \<and> p \<noteq> [] \<longrightarrow>
      hd p = s \<and> last p = t \<and> distinct p \<and> (adjacent_neighbors g \<longrightarrow> adjacent4 p)) \<and>
   (AStar_find_path g s t = Some (Inr p) \<and> p \<noteq> [] \<longrightarrow>
      hd p = s \<and> last p = t \<and> distinct p \<and> (adjacent_neighbors g \<longrightarrow> adjacent4 p))"
  using DFS_returned [of g s t p] bb_returned [of g s t p] as_returned [of g s t p]
    linked_adjacent4 [of g p]
  by (auto simp: is_route_def)

text \<open>C1 on the open \<open>3 \<times> 3\<close> grid of unit cost, from \<open>(0, 0)\<close> to \<open>(2, 2)\<close>.\<close>

theorem C1_returned_path_witness:
  "DFS_find_path (open_grid 1) (0, 0) (2, 2) = Some (Inr [(0, 0), (0, 1), (0, 2), (1, 2), (2, 2)]) \<and>
   hd [(0, 0), (0, 1), (0, 2), (1, 2), (2, 2)] = ((0, 0) :: coord) \<and>
   last [(0, 0), (0, 1), (0, 2), (1, 2), (2, 2)] = ((2, 2) :: coord) \<and>
   adjacent4 [(0, 0), (0, 1), (0, 2), (1, 2), (2, 2)] \<and>
   distinct [(0, 0), (0, 1), (0, 2), (1, 2), (2, 2) :: coord] \<and>
   adjacent_neighbors (open_grid 1) \<and>
   BranchAndBound_find_path (open_grid 1) (0, 0) (2, 2) = Some (Inr [(0, 0), (1, 0), (2, 0), (2, 1), (2, 2)]) \<and>
   AStar_find_path (open_grid 1) (0, 0) (2, 2) = Some (Inr [(0, 0), (1, 0), (2, 0), (2, 1), (2, 2)]) \<and>
   hd [(0, 0), (1, 0), (2, 0), (2, 1), (2, 2)] = ((0, 0) :: coord) \<and>
   last [(0, 0), (1, 0), (2, 0), (2, 1), (2, 2)] = ((2, 2) :: coord) \<and>
   adjacent4 [(0, 0), (1, 0), (2, 0), (2, 1), (2, 2)] \<and>
   distinct [(0, 0), (1, 0), (2, 0), (2, 1), (2, 2) :: coord]"
  using C1_returned_path [of "open_grid 1" "(0, 0)" "(2, 2)" "[(0, 0), (0, 1), (0, 2), (1, 2), (2, 2)]"]
    C1_returned_path [of "open_grid 1" "(0, 0)" "(2, 2)" "[(0, 0), (1, 0), (2, 0), (2, 1), (2, 2)]"]
    open_grid_runs contract_adjacent [OF open_grid_contract, of 1]
  by simp

text \<open>
  C4.  On a finite \<open>rows \<times> cols\<close> grid that keeps the contract, the DFS loop is left
  after at most \<open>2 * (rows * cols) + 1\<close> executions of its body, without an exception.
  The returned path is empty or ends at the goal, and it is empty exactly when the goal
  cannot be reached from the start.
\<close>

theorem C4_DFS_terminates:
  assumes "grid_contract rows cols g"
  shows "\<exists>n p. n \<le> 2 * (rows * cols) + 1 \<and>
           DFS_fuel n g t ([s], {s}) = Some (Inr p) \<and>
           DFS_find_path g s t = Some (Inr p) \<and>
           (p = [] \<or> last p = t) \<and> (p = [] \<longleftrightarrow> no_route g s t)"
proof -
  from DFS_result [OF assms, of t s] obtain n p where
    "n \<le> 2 * (rows * cols) + 1" "DFS_fuel n g t ([s], {s}) = Some (Inr p)"
    "DFS_find_path g s t = Some (Inr p)" "p = [] \<or> is_route g s t p" "p = [] \<longleftrightarrow> no_route g s t"
    by blast
  moreover from this(4) have "p = [] \<or> last p = t" by (auto simp: is_route_def)
  ultimately show ?thesis by blast
qed

text \<open>C4 on the corridor, whose last cell is walled off from the first.\<close>

theorem C4_DFS_terminates_witness:
  "grid_contract 1 4 walled_grid \<and>
   DFS_find_path walled_grid (0, 0) (0, 3) = Some (Inr []) \<and>
   no_route walled_grid (0, 0) (0, 3) \<and>
   (\<exists>n. n \<le> 9 \<and> DFS_fuel n walled_grid (0, 3) ([(0, 0)], {(0, 0)}) = Some (Inr []))"
  using C4_DFS_terminates [OF walled_grid_contract, of "(0, 3)" "(0, 0)"]
    walled_grid_contract walled_grid_run by auto

text \<open>
  C7.  The DFS strategy is deterministic.  Its result is a function of the grid, the
  start and the goal alone: \<open>DFS_find_path\<close> takes no random draws (the greedy strategy
  does).  Moreover the result does not depend on the order in which the grid enumerates
  the neighbours of a cell: two grids that offer the same tiles as neighbours of every
  cell give the same path, since the candidates are re-sorted by cost and by the fixed
  direction priority.  Two calls with identical inputs are the case \<open>g' = g\<close>.
\<close>

theorem C7_DFS_deterministic:
  assumes "\<forall>r c. set (neighbors4 g r c) = set (neighbors4 g' r c)"
  shows "DFS_find_path g s t = DFS_find_path g' s t"
  unfolding DFS_find_path_def using assms by (rule DFS_loop_cong)

text \<open>
  C7 on the open \<open>3 \<times> 3\<close> grid of unit cost and the same grid with every neighbour
  list reversed.
\<close>

theorem C7_DFS_deterministic_witness:
  "DFS_find_path (open_grid 1) (0, 0) (2, 2) = DFS_find_path (flip_grid (open_grid 1)) (0, 0) (2, 2) \<and>
   DFS_find_path (open_grid 1) (0, 0) (2, 2) = Some (Inr [(0, 0), (0, 1), (0, 2), (1, 2), (2, 2)]) \<and>
   neighbors4 (open_grid 1) 1 1 \<noteq> neighbors4 (flip_grid (open_grid 1)) 1 1"
proof (intro conjI)
  show "DFS_find_path (open_grid 1) (0, 0) (2, 2) = DFS_find_path (flip_grid (open_grid 1)) (0, 0) (2, 2)"
    by (rule C7_DFS_deterministic [OF flip_grid_same])
  show "DFS_find_path (open_grid 1) (0, 0) (2, 2) = Some (Inr [(0, 0), (0, 1), (0, 2), (1, 2), (2, 2)])"
    by (rule open_grid_runs(1))
  show "neighbors4 (open_grid 1) 1 1 \<noteq> neighbors4 (flip_grid (open_grid 1)) 1 1"
    by (rule flip_grid_differs)
qed

section \<open>Claims about the greedy strategy\<close>

text \<open>
  C9.  Whatever the grid and the random draws, when the greedy strategy returns a path,
  the path starts at the start cell, ends at the goal, and each of its steps goes to a
  neighbour of the previous cell that minimises the Manhattan distance to the goal among
  that cell's neighbours.
\<close>

theorem C9_greedy_path:
  assumes "ExampleAgent_find_path g s t rnd = Some (Inr p)"
  shows "p \<noteq> [] \<and> hd p = s \<and> last p = t \<and> greedy_steps g t p"
  using assms unfolding ExampleAgent_find_path_def
  by (rule greedy_loop_partial) simp_all

text \<open>C9 on the open \<open>3 \<times> 3\<close> grid, with the draws that always pick the first tile.\<close>

theorem C9_greedy_path_witness:
  "ExampleAgent_find_path (open_grid 1) (0, 0) (2, 2) first_draw =
     Some (Inr [(0, 0), (1, 0), (2, 0), (2, 1), (2, 2)]) \<and>
   hd [(0, 0), (1, 0), (2, 0), (2, 1), (2, 2)] = ((0, 0) :: coord) \<and>
   last [(0, 0), (1, 0), (2, 0), (2, 1), (2, 2)] = ((2, 2) :: coord) \<and>
   greedy_steps (open_grid 1) (2, 2) [(0, 0), (1, 0), (2, 0), (2, 1), (2, 2)]"
  using C9_greedy_path [OF greedy_open_run] greedy_open_run by blast

text \<open>
  C6.  There is a grid on which the goal cannot be reached from the start and the greedy
  strategy never returns: on the corridor \<open>walled_grid\<close>, from \<open>(0, 0)\<close> to the
  walled-off cell \<open>(0, 3)\<close>, there is no route; for all random draws the loop never
  exits (\<open>None\<close>), and after any number \<open>n\<close> of iterations no exception has been raised
  and the current cell still differs from the goal.
\<close>

theorem C6_greedy_never_returns:
  "no_route walled_grid (0, 0) (0, 3) \<and>
   (\<forall>rnd. ExampleAgent_find_path walled_grid (0, 0) (0, 3) rnd = None) \<and>
   (\<forall>rnd n. \<exists>nodes. ExampleAgent_iter walled_grid (0, 3) rnd 0 n [(0, 0)] = Inr nodes \<and>
                      nodes \<noteq> [] \<and> last nodes \<noteq> (0, 3))"
proof (intro conjI allI)
  let ?V = "{(0, 0), (0, 1)} :: coord set"
  have clo: "\<forall>v \<in> ?V. set (nbrs walled_grid v) \<subseteq> ?V" using walled_grid_trap by blast
  show "no_route walled_grid (0, 0) (0, 3)"
    using clo by (rule closed_no_route) simp_all
  show "ExampleAgent_find_path walled_grid (0, 0) (0, 3) rnd = None" for rnd
    using walled_grid_trap by (rule greedy_trapped_None) simp_all
  show "\<exists>nodes. ExampleAgent_iter walled_grid (0, 3) rnd 0 n [(0, 0)] = Inr nodes \<and>
                nodes \<noteq> [] \<and> last nodes \<noteq> (0, 3)" for rnd n
  proof -
    have "\<exists>nodes'. ExampleAgent_iter walled_grid (0, 3) rnd 0 n [(0, 0)] = Inr nodes' \<and>
            nodes' \<noteq> [] \<and> last nodes' \<in> ?V"
      using walled_grid_trap by (rule greedy_trapped_iter) simp_all
    then show ?thesis by auto
  qed
qed

text \<open>C6 for the draws that always pick the first tile, after three iterations.\<close>

theorem C6_greedy_never_returns_witness:
  "ExampleAgent_find_path walled_grid (0, 0) (0, 3) first_draw = None \<and>
   ExampleAgent_iter walled_grid (0, 3) first_draw 0 3 [(0, 0)] = Inr [(0, 0), (0, 1), (0, 0), (0, 1)]"
proof (intro conjI)
  from C6_greedy_never_returns
  show "ExampleAgent_find_path walled_grid (0, 0) (0, 3) first_draw = None" by blast
  show "ExampleAgent_iter walled_grid (0, 3) first_draw 0 3 [(0, 0)] = Inr [(0, 0), (0, 1), (0, 0), (0, 1)]"
    by (rule walled_iter_run)
qed

end
